theory Spec2Isabelle
  imports Main
begin

section \<open>The kernel data the system call reads\<close>

text \<open>
  \<^verbatim>\<open>ptree.c\<close> walks the kernel's process tree through the fields of
  \<^verbatim>\<open>struct task_struct\<close>: \<^verbatim>\<open>parent\<close>, \<^verbatim>\<open>real_parent\<close> and the two embedded
  \<^verbatim>\<open>struct list_head\<close> nodes \<^verbatim>\<open>children\<close> (the head of the circular list of a task's
  children) and \<^verbatim>\<open>sibling\<close> (this task's link in its parent's list).

  A pointer to a task is a \<open>task_ptr\<close>. A pointer to a \<^verbatim>\<open>list_head\<close> says in which task
  and in which of the two fields the node is embedded. The C type \<^verbatim>\<open>int\<close> and \<^verbatim>\<open>pid_t\<close>
  are modelled by \<open>int\<close>: every counter of the file counts tasks that are alive at the same
  time, and the kernel bounds their number by \<^verbatim>\<open>PID_MAX_LIMIT\<close> (4194304).
\<close>

type_synonym task_ptr = int

datatype list_ptr = Children task_ptr | Sibling task_ptr

record list_head =
  "next" :: list_ptr
  prev :: list_ptr

record task_struct =
  t_pid :: int
  t_state :: int
  t_uid :: int
  t_comm :: string
  parent :: task_ptr
  real_parent :: task_ptr
  children :: list_head
  sibling :: list_head

text \<open>
  The kernel state seen inside one \<^verbatim>\<open>read_lock(&tasklist_lock)\<close> section: the address of
  \<^verbatim>\<open>init_task\<close>, the memory holding the task structures, and the sequence of tasks that
  the kernel macro \<^verbatim>\<open>for_each_process\<close> enumerates (all processes but \<^verbatim>\<open>init_task\<close>).
  \<open>BITS_PER_LONG\<close> is the width of the C type \<^verbatim>\<open>long\<close> the kernel was built for.
\<close>

record kernel =
  init_task :: task_ptr
  task :: "task_ptr \<Rightarrow> task_struct"
  procs :: "task_ptr list"
  BITS_PER_LONG :: nat

text \<open>\<^verbatim>\<open>struct prinfo\<close>, the record copied out for every visited task.\<close>

record prinfo =
  parent_pid :: int
  pid :: int
  first_child_pid :: int
  next_sibling_pid :: int
  state :: int
  uid :: int
  comm :: string

text \<open>
  \<^verbatim>\<open>list_entry(ptr, struct task_struct, sibling)\<close> subtracts the offset of the field
  \<^verbatim>\<open>sibling\<close> from \<open>ptr\<close>. Applied to the \<^verbatim>\<open>sibling\<close> node of a task it gives the task;
  applied to a list head \<^verbatim>\<open>children\<close> it gives a pointer into the middle of a task
  structure. What the code then reads through that pointer depends on the memory layout,
  so the model stops there with \<open>WildPointer\<close>. \<open>BufferOverflow\<close> is a store past the end
  of the record buffer.
\<close>

datatype error = WildPointer | BufferOverflow

section \<open>List helpers of the kernel\<close>

definition deref :: "kernel \<Rightarrow> list_ptr \<Rightarrow> list_head" where
  "deref k p = (case p of Children t \<Rightarrow> children (task k t) | Sibling t \<Rightarrow> sibling (task k t))"

definition list_empty :: "kernel \<Rightarrow> list_ptr \<Rightarrow> bool" where
  "list_empty k head = (next (deref k head) = head)"

definition list_is_last :: "kernel \<Rightarrow> list_ptr \<Rightarrow> list_ptr \<Rightarrow> bool" where
  "list_is_last k l head = (next (deref k l) = head)"

definition list_entry :: "list_ptr \<Rightarrow> error + task_ptr" where
  "list_entry p = (case p of Sibling t \<Rightarrow> Inr t | Children t \<Rightarrow> Inl WildPointer)"

definition list_first_entry :: "kernel \<Rightarrow> list_ptr \<Rightarrow> error + task_ptr" where
  "list_first_entry k p = list_entry (next (deref k p))"

definition task_pid_nr :: "kernel \<Rightarrow> task_ptr \<Rightarrow> int" where
  "task_pid_nr k tsk = t_pid (task k tsk)"

section \<open>The helpers of ptree.c\<close>

definition EXTRA_SLOTS :: int where
  "EXTRA_SLOTS = 15"

definition MIN_macro :: "int \<Rightarrow> int \<Rightarrow> int" where
  "MIN_macro a b = (if a < b then a else b)"

definition get_first_list_head :: "kernel \<Rightarrow> task_ptr \<Rightarrow> list_ptr" where
  "get_first_list_head k tsk = Children (parent (task k tsk))"

definition get_ppid :: "kernel \<Rightarrow> task_ptr \<Rightarrow> int" where
  "get_ppid k tsk = task_pid_nr k (real_parent (task k tsk))"

definition get_youngest_child_pid :: "kernel \<Rightarrow> task_ptr \<Rightarrow> error + int" where
  "get_youngest_child_pid k tsk =
     (if list_empty k (Children tsk) then Inr 0
      else case list_entry (prev (children (task k tsk))) of
             Inl e \<Rightarrow> Inl e
           | Inr tsk' \<Rightarrow> Inr (task_pid_nr k tsk'))"

definition get_next_sibling_pid :: "kernel \<Rightarrow> task_ptr \<Rightarrow> error + int" where
  "get_next_sibling_pid k tsk =
     (if list_is_last k (Sibling tsk) (Children (real_parent (task k tsk))) then Inr 0
      else case list_entry (next (sibling (task k tsk))) of
             Inl e \<Rightarrow> Inl e
           | Inr tsk' \<Rightarrow> Inr (task_pid_nr k tsk'))"

text \<open>\<^verbatim>\<open>for_each_process(cur) ++count;\<close>\<close>

definition get_num_of_processes :: "kernel \<Rightarrow> int" where
  "get_num_of_processes k = foldl (\<lambda>count cur. count + 1) 0 (procs k)"

text \<open>
  The cast \<^verbatim>\<open>(long) tsk->real_cred->uid\<close>. A uid is an unsigned number of 32 bits, held
  in \<open>t_uid\<close>; converted to a \<^verbatim>\<open>long\<close> of 32 bits a uid from \<open>2^31\<close> on becomes
  negative, converted to a \<^verbatim>\<open>long\<close> of 64 bits it keeps its value.
\<close>

definition long_cast :: "nat \<Rightarrow> int \<Rightarrow> int" where
  "long_cast bits x = (x + 2 ^ (bits - 1)) mod 2 ^ bits - 2 ^ (bits - 1)"

definition store_node :: "kernel \<Rightarrow> task_ptr \<Rightarrow> error + prinfo" where
  "store_node k tsk =
     (case get_youngest_child_pid k tsk of
        Inl e \<Rightarrow> Inl e
      | Inr fc \<Rightarrow>
         (case get_next_sibling_pid k tsk of
            Inl e \<Rightarrow> Inl e
          | Inr ns \<Rightarrow>
              Inr \<lparr> parent_pid = get_ppid k tsk,
                    pid = task_pid_nr k tsk,
                    first_child_pid = fc,
                    next_sibling_pid = ns,
                    state = t_state (task k tsk),
                    uid = long_cast (BITS_PER_LONG k) (t_uid (task k tsk)),
                    comm = t_comm (task k tsk) \<rparr>))"

section \<open>The walker \<^verbatim>\<open>dfs_add\<close>\<close>

text \<open>
  The record buffer \<^verbatim>\<open>kbuf\<close> is a list of slots; a slot of freshly allocated memory
  holds \<open>None\<close>. \<open>store_at\<close> is the statement
  \<^verbatim>\<open>if (iterations < *knr) store_node(kbuf + iterations, cur);\<close>.
\<close>

definition store_at ::
  "kernel \<Rightarrow> int \<Rightarrow> prinfo option list \<Rightarrow> int \<Rightarrow> task_ptr \<Rightarrow> error + prinfo option list" where
  "store_at k knr kbuf iterations cur =
     (if iterations < knr then
        (if iterations < 0 \<or> int (length kbuf) \<le> iterations then Inl BufferOverflow
         else case store_node k cur of
                Inl e \<Rightarrow> Inl e
              | Inr r \<Rightarrow> Inr (kbuf[nat iterations := Some r]))
      else Inr kbuf)"

text \<open>
  The inner loop
  \<^verbatim>\<open>while (list_is_last(&(cur->sibling), list) && cur != &init_task) cur = cur->real_parent;\<close>
  The variable \<^verbatim>\<open>list\<close> is assigned before the loop and not inside it.
  A loop that does not end has the value \<open>None\<close>.
\<close>

partial_function (option) climb :: "kernel \<Rightarrow> list_ptr \<Rightarrow> task_ptr \<Rightarrow> task_ptr option" where
  "climb k list cur =
     (if list_is_last k (Sibling cur) list \<and> cur \<noteq> init_task k
      then climb k list (real_parent (task k cur))
      else Some cur)"

declare climb.simps [code]

text \<open>
  The body of the outer \<^verbatim>\<open>while (1)\<close> after \<^verbatim>\<open>iterations++\<close>: the task to visit next,
  \<open>Inr None\<close> for \<^verbatim>\<open>break\<close>.
\<close>

definition dfs_next :: "kernel \<Rightarrow> task_ptr \<Rightarrow> (error + task_ptr option) option" where
  "dfs_next k cur =
     (if \<not> list_empty k (Children cur) then
        (case list_first_entry k (Children cur) of
           Inl e \<Rightarrow> Some (Inl e)
         | Inr c \<Rightarrow> Some (Inr (Some c)))
      else if \<not> list_is_last k (Sibling cur) (get_first_list_head k cur) then
        (case list_first_entry k (Sibling cur) of
           Inl e \<Rightarrow> Some (Inl e)
         | Inr c \<Rightarrow> Some (Inr (Some c)))
      else
        (case climb k (get_first_list_head k (real_parent (task k cur)))
                      (real_parent (task k cur)) of
           None \<Rightarrow> None
         | Some cur' \<Rightarrow>
            (case list_first_entry k (Sibling cur') of
               Inl e \<Rightarrow> Some (Inl e)
             | Inr c \<Rightarrow> if c = init_task k then Some (Inr None) else Some (Inr (Some c)))))"

partial_function (option) dfs_loop ::
  "kernel \<Rightarrow> int \<Rightarrow> prinfo option list \<Rightarrow> int \<Rightarrow> task_ptr
     \<Rightarrow> (error + prinfo option list \<times> int) option" where
  "dfs_loop k knr kbuf iterations cur =
     (case store_at k knr kbuf iterations cur of
        Inl e \<Rightarrow> Some (Inl e)
      | Inr kbuf' \<Rightarrow>
         (case dfs_next k cur of
            None \<Rightarrow> None
          | Some (Inl e) \<Rightarrow> Some (Inl e)
          | Some (Inr None) \<Rightarrow> Some (Inr (kbuf', iterations + 1))
          | Some (Inr (Some c)) \<Rightarrow> dfs_loop k knr kbuf' (iterations + 1) c))"

declare dfs_loop.simps [code]

text \<open>
  \<^verbatim>\<open>dfs_add(kbuf, &knr)\<close> returns the buffer, the new value of \<^verbatim>\<open>*knr\<close> and the
  number of iterations.
\<close>

definition dfs_add ::
  "kernel \<Rightarrow> prinfo option list \<Rightarrow> int \<Rightarrow> (error + prinfo option list \<times> int \<times> int) option" where
  "dfs_add k kbuf knr =
     (case dfs_loop k knr kbuf 0 (init_task k) of
        None \<Rightarrow> None
      | Some (Inl e) \<Rightarrow> Some (Inl e)
      | Some (Inr (kbuf', iterations)) \<Rightarrow>
          Some (Inr (kbuf', (if iterations < knr then iterations else knr), iterations)))"

section \<open>The system call \<^verbatim>\<open>sys_ptree\<close>\<close>

text \<open>
  The error numbers of \<^verbatim>\<open>asm-generic/errno-base.h\<close> and the null pointer.
\<close>

definition ENOMEM :: int where "ENOMEM = 12"
definition EFAULT :: int where "EFAULT = 14"
definition EINVAL :: int where "EINVAL = 22"
definition NULL :: nat where "NULL = 0"

text \<open>
  The caller's memory behind the two pointer arguments: whether the \<^verbatim>\<open>int\<close> at \<^verbatim>\<open>nr\<close>
  can be read and written and what it holds, how many whole records can be written at
  \<^verbatim>\<open>buf\<close>, and what the slots at \<^verbatim>\<open>buf\<close> hold.
\<close>

record uspace =
  nr_readable :: bool
  nr_writable :: bool
  nr_val :: int
  buf_slots :: nat
  ubuf :: "nat \<Rightarrow> prinfo option"

text \<open>
  What the platform fixes: \<^verbatim>\<open>sizeof(struct prinfo)\<close> (the header \<^verbatim>\<open>prinfo.h\<close> is not
  part of the file) and whether the allocator can serve a request of a given number of
  bytes.
\<close>

record env =
  sizeof_prinfo :: nat
  kmalloc_ok :: "nat \<Rightarrow> bool"

text \<open>
  The kernel interfaces the system call uses, as the kernel documents them.
  \<^verbatim>\<open>get_user\<close> and \<^verbatim>\<open>put_user\<close> return 0 or \<^verbatim>\<open>-EFAULT\<close>; a failed \<^verbatim>\<open>put_user\<close>
  writes nothing. \<^verbatim>\<open>copy_to_user\<close> returns the number of bytes that could not be
  copied, an \<^verbatim>\<open>unsigned long\<close>; \<open>s32\<close> is its conversion to the \<^verbatim>\<open>int\<close> variable
  \<^verbatim>\<open>rval\<close>. \<^verbatim>\<open>kmalloc_array\<close> returns fresh memory or \<^verbatim>\<open>NULL\<close>.
\<close>

definition get_user :: "uspace \<Rightarrow> int \<times> int" where
  "get_user u = (if nr_readable u then (0, nr_val u) else (- EFAULT, 0))"

definition put_user :: "uspace \<Rightarrow> int \<Rightarrow> int \<times> uspace" where
  "put_user u x = (if nr_writable u then (0, u\<lparr>nr_val := x\<rparr>) else (- EFAULT, u))"

definition copy_to_user :: "env \<Rightarrow> uspace \<Rightarrow> prinfo option list \<Rightarrow> nat \<Rightarrow> nat \<times> uspace" where
  "copy_to_user e u src n =
     (let m = min n (buf_slots u)
      in ((n - m) * sizeof_prinfo e,
          u\<lparr>ubuf := (\<lambda>i. if i < m then src ! i else ubuf u i)\<rparr>))"

definition s32 :: "int \<Rightarrow> int" where
  "s32 x = (x + 2147483648) mod 4294967296 - 2147483648"

definition kmalloc_array :: "env \<Rightarrow> int \<Rightarrow> prinfo option list option" where
  "kmalloc_array e n =
     (if kmalloc_ok e (nat n * sizeof_prinfo e) then Some (replicate (nat n) None) else None)"

text \<open>
  What a call leaves behind: how it ended, the caller's memory, and the calls it made to
  the lock and to the allocator, in order. A call that stops in the walker (it never
  returns from a loop, or it follows a wild pointer) has not returned to the caller.
\<close>

datatype event = Read_lock | Read_unlock | Kmalloc_array int | Kfree

datatype outcome = Returns int | Faults error | Hangs

record result =
  outcome :: outcome
  user :: uspace
  calls :: "event list"

text \<open>
  The tree can change between the two sections that hold \<^verbatim>\<open>tasklist_lock\<close>: \<open>kp\<close> is the
  kernel state during the count, \<open>kw\<close> the state during the walk. For a tree that does
  not change they are the same.
\<close>

definition sys_ptree :: "env \<Rightarrow> kernel \<Rightarrow> kernel \<Rightarrow> uspace \<Rightarrow> nat \<Rightarrow> nat \<Rightarrow> result" where
  "sys_ptree e kp kw u buf nr =
     (if buf = NULL \<or> nr = NULL then
        \<lparr> outcome = Returns (- EINVAL), user = u, calls = [] \<rparr>
      else case get_user u of (rval, knr) \<Rightarrow>
        if rval < 0 then \<lparr> outcome = Returns (- EFAULT), user = u, calls = [] \<rparr>
        else if knr < 1 then \<lparr> outcome = Returns (- EINVAL), user = u, calls = [] \<rparr>
        else
          let nproc = get_num_of_processes kp;
              kslots = MIN_macro (nproc + EXTRA_SLOTS) knr;
              tr = [Read_lock, Read_unlock, Kmalloc_array kslots]
          in case kmalloc_array e kslots of
               None \<Rightarrow> \<lparr> outcome = Returns (- ENOMEM), user = u, calls = tr \<rparr>
             | Some kbuf \<Rightarrow>
                (case dfs_add kw kbuf kslots of
                   None \<Rightarrow> \<lparr> outcome = Hangs, user = u, calls = tr @ [Read_lock] \<rparr>
                 | Some (Inl err) \<Rightarrow>
                     \<lparr> outcome = Faults err, user = u, calls = tr @ [Read_lock] \<rparr>
                 | Some (Inr (kbuf', kslots', nproc')) \<Rightarrow>
                    (case copy_to_user e u kbuf' (nat kslots') of (left, u') \<Rightarrow>
                       if s32 (int left) < 0 then
                         \<lparr> outcome = Returns (- EFAULT), user = u',
                           calls = tr @ [Read_lock, Read_unlock, Kfree] \<rparr>
                       else case put_user u' kslots' of (rv, u'') \<Rightarrow>
                         if rv < 0 then
                           \<lparr> outcome = Returns (- EFAULT), user = u'',
                             calls = tr @ [Read_lock, Read_unlock, Kfree] \<rparr>
                         else
                           \<lparr> outcome = Returns nproc', user = u'',
                             calls = tr @ [Read_lock, Read_unlock, Kfree] \<rparr>)))"

section \<open>Process trees and the kernel memory that represents them\<close>

text \<open>
  A process with its pid, state, uid and command name, and its children, oldest first.
  The kernel never reuses the pid of a live task, so the model places the task structure
  of a process at the address given by its pid.
\<close>

datatype ptree = Proc (tpid: int) (tstate: int) (tuid: int) (tcomm: string) (kids: "ptree list")

text \<open>
  \<open>link_task par pv nx p\<close> lays out the task structures of the subtree \<open>p\<close> whose root
  has the parent \<open>par\<close> and whose \<^verbatim>\<open>sibling\<close> node lies between the list nodes \<open>pv\<close> and
  \<open>nx\<close>. This is the shape that \<^verbatim>\<open>copy_process\<close> builds with
  \<^verbatim>\<open>list_add_tail(&p->sibling, &p->real_parent->children)\<close>: the list of children
  starts at the head \<^verbatim>\<open>children\<close> of the parent, runs through the \<^verbatim>\<open>sibling\<close> nodes from
  the oldest child to the youngest and closes at the head again.
\<close>

fun link_task :: "task_ptr \<Rightarrow> list_ptr \<Rightarrow> list_ptr \<Rightarrow> ptree \<Rightarrow> (task_ptr \<times> task_struct) list"
  and link_kids :: "task_ptr \<Rightarrow> list_ptr \<Rightarrow> ptree list \<Rightarrow> (task_ptr \<times> task_struct) list"
where
  "link_task par pv nx (Proc p st u c ks) =
     (p, \<lparr> t_pid = p, t_state = st, t_uid = u, t_comm = c,
           parent = par, real_parent = par,
           children = \<lparr> next = (case ks of [] \<Rightarrow> Children p | k # _ \<Rightarrow> Sibling (tpid k)),
                        prev = (case ks of [] \<Rightarrow> Children p | _ # _ \<Rightarrow> Sibling (tpid (last ks))) \<rparr>,
           sibling = \<lparr> next = nx, prev = pv \<rparr> \<rparr>)
     # link_kids p (Children p) ks"
| "link_kids par pv [] = []"
| "link_kids par pv (k # ks) =
     link_task par pv (case ks of [] \<Rightarrow> Children par | k' # _ \<Rightarrow> Sibling (tpid k')) k
     @ link_kids par (Sibling (tpid k)) ks"

fun pids :: "ptree \<Rightarrow> int list" where
  "pids (Proc p st u c ks) = p # concat (map pids ks)"

text \<open>
  The root is \<^verbatim>\<open>init_task\<close>: \<^verbatim>\<open>INIT_TASK\<close> makes it its own parent and initialises its
  \<^verbatim>\<open>sibling\<close> node with \<^verbatim>\<open>LIST_HEAD_INIT\<close>, a list node linked to itself.
  The kernel is one with a \<^verbatim>\<open>long\<close> of 32 bits.
\<close>

definition kernel_of :: "ptree \<Rightarrow> kernel" where
  "kernel_of t =
     \<lparr> init_task = tpid t,
       task = (\<lambda>a. the (map_of (link_task (tpid t) (Sibling (tpid t)) (Sibling (tpid t)) t) a)),
       procs = tl (pids t),
       BITS_PER_LONG = 32 \<rparr>"


section \<open>Auxiliary definitions for the proofs\<close>

text \<open>
  What one run of the outer loop does to the buffer: started with the counter \<open>it\<close> it
  ends with a larger counter \<open>it'\<close>, changes only slots from \<open>it\<close> up to the smaller of
  \<open>it'\<close> and \<open>knr\<close>, and leaves a record in each of them.
\<close>

definition loop_post :: "int \<Rightarrow> prinfo option list \<Rightarrow> int \<Rightarrow> prinfo option list \<Rightarrow> int \<Rightarrow> bool" where
  "loop_post knr kbuf it kbuf' it' \<longleftrightarrow>
     it < it' \<and> length kbuf' = length kbuf
     \<and> (\<forall>i < length kbuf. kbuf' ! i \<noteq> kbuf ! i \<longrightarrow> it \<le> int i \<and> int i < it' \<and> int i < knr)
     \<and> (\<forall>i. it \<le> int i \<and> int i < it' \<and> int i < knr \<longrightarrow> i < length kbuf \<and> kbuf' ! i \<noteq> None)"

text \<open>The number of slots that \<^verbatim>\<open>sys_ptree\<close> asks the allocator for.\<close>

definition kslots_of :: "kernel \<Rightarrow> uspace \<Rightarrow> int" where
  "kslots_of kp u = MIN_macro (get_num_of_processes kp + EXTRA_SLOTS) (nr_val u)"

text \<open>
  All nodes of a tree, and what it means for a task structure to be the one of a node:
  it carries the node's data, its list of children starts at the oldest child and ends at
  the youngest, and its \<^verbatim>\<open>sibling\<close> node is followed by the \<^verbatim>\<open>sibling\<close> node of another
  task or by the list head of its parent.
\<close>

fun subtrees :: "ptree \<Rightarrow> ptree list" where
  "subtrees (Proc p st u c ks) = Proc p st u c ks # concat (map subtrees ks)"

definition node_struct :: "ptree \<Rightarrow> task_struct \<Rightarrow> bool" where
  "node_struct s ts \<longleftrightarrow>
     t_pid ts = tpid s \<and> t_state ts = tstate s \<and> t_uid ts = tuid s \<and> t_comm ts = tcomm s
     \<and> children ts =
          \<lparr> next = (case kids s of [] \<Rightarrow> Children (tpid s) | k # _ \<Rightarrow> Sibling (tpid k)),
            prev = (case kids s of [] \<Rightarrow> Children (tpid s) | _ # _ \<Rightarrow> Sibling (tpid (last (kids s)))) \<rparr>
     \<and> (case next (sibling ts) of Sibling q \<Rightarrow> True | Children q \<Rightarrow> q = real_parent ts)"

text \<open>
  Where a node lies: \<open>placed par nx s ts\<close> says that the task structure \<open>ts\<close> of the node
  \<open>s\<close> has the parent \<open>par\<close> and that \<open>nx\<close> follows its \<^verbatim>\<open>sibling\<close> node; \<open>nxt par rest\<close>
  is the list node after a child whose younger siblings are \<open>rest\<close>.
\<close>

definition nxt :: "task_ptr \<Rightarrow> ptree list \<Rightarrow> list_ptr" where
  "nxt par rest = (case rest of [] \<Rightarrow> Children par | d # _ \<Rightarrow> Sibling (tpid d))"

definition placed :: "task_ptr \<Rightarrow> list_ptr \<Rightarrow> ptree \<Rightarrow> task_struct \<Rightarrow> bool" where
  "placed par nx s ts \<longleftrightarrow>
     parent ts = par \<and> real_parent ts = par \<and> next (sibling ts) = nx
     \<and> children ts =
          \<lparr> next = (case kids s of [] \<Rightarrow> Children (tpid s) | k # _ \<Rightarrow> Sibling (tpid k)),
            prev = (case kids s of [] \<Rightarrow> Children (tpid s) | _ # _ \<Rightarrow> Sibling (tpid (last (kids s)))) \<rparr>"

text \<open>
  \<open>rdepth\<close> is the length of the path from a node down through the youngest children
  to a leaf. The climb of the walker goes up at most two levels, because it does not
  update \<^verbatim>\<open>list\<close>; \<open>climbs_ok\<close> says that this is enough everywhere below the root:
  every node that has a younger sibling has \<open>rdepth\<close> at most 2.
\<close>

fun rdepth :: "ptree \<Rightarrow> nat" and rdepth_kids :: "ptree list \<Rightarrow> nat" where
  "rdepth (Proc p st u c ks) = rdepth_kids ks"
| "rdepth_kids [] = 0"
| "rdepth_kids [k] = Suc (rdepth k)"
| "rdepth_kids (k # k' # ks) = rdepth_kids (k' # ks)"

fun climbs_ok :: "ptree \<Rightarrow> bool" and climbs_ok_kids :: "ptree list \<Rightarrow> bool" where
  "climbs_ok (Proc p st u c ks) = climbs_ok_kids ks"
| "climbs_ok_kids [] = True"
| "climbs_ok_kids [k] = climbs_ok k"
| "climbs_ok_kids (k # k' # ks) = (rdepth k \<le> 2 \<and> climbs_ok k \<and> climbs_ok_kids (k' # ks))"

text \<open>
  \<open>follows k xs\<close>: the walker goes from each task of \<open>xs\<close> to the next one.
  \<open>stores\<close> runs the store statement of the loop over a list of tasks.
\<close>

fun follows :: "kernel \<Rightarrow> task_ptr list \<Rightarrow> bool" where
  "follows k [] = True"
| "follows k [a] = True"
| "follows k (a # b # r) = (dfs_next k a = Some (Inr (Some b)) \<and> follows k (b # r))"

fun stores ::
  "kernel \<Rightarrow> int \<Rightarrow> task_ptr list \<Rightarrow> prinfo option list \<Rightarrow> int
     \<Rightarrow> error + prinfo option list \<times> int" where
  "stores k knr [] kbuf it = Inr (kbuf, it)"
| "stores k knr (x # xs) kbuf it =
     (case store_at k knr kbuf it x of
        Inl e \<Rightarrow> Inl e
      | Inr kbuf' \<Rightarrow> stores k knr xs kbuf' (it + 1))"

section \<open>Concrete inputs\<close>

text \<open>
  The tree of the specification's scenario: a root with the children A and B, where A
  was created first, and a child C of A. The pids are 0, 1, 2 and 3 for R, A, B, C.
\<close>

definition scenario_tree :: ptree where
  "scenario_tree =
     Proc 0 0 0 ''swapper''
       [Proc 1 1 0 ''init'' [Proc 3 1 0 ''sh'' []],
        Proc 2 1 0 ''kthreadd'' []]"

text \<open>
  A tree with a chain of only children below the first child of the root: the idle task
  0 with the children 1 and 2, where 1 has the descendants 3, 4 and 5 in a line.
\<close>

definition chain_tree :: ptree where
  "chain_tree =
     Proc 0 0 0 ''swapper''
       [Proc 1 1 0 ''init''
          [Proc 3 1 0 ''adbd'' [Proc 4 1 2000 ''sh'' [Proc 5 0 2000 ''test'' []]]],
        Proc 2 1 0 ''kthreadd'' [Proc 6 1 0 ''ksoftirqd/0'' []]]"

text \<open>A tree that has only the root.\<close>

definition root_only :: ptree where
  "root_only = Proc 0 0 0 ''swapper'' []"

text \<open>
  A platform with records of 88 bytes whose allocator serves every request, and a caller
  that passes the capacity \<open>cap\<close> and a buffer in which \<open>slots\<close> records can be written.
\<close>

definition board :: env where
  "board = \<lparr> sizeof_prinfo = 88, kmalloc_ok = (\<lambda>n. True) \<rparr>"

definition caller :: "int \<Rightarrow> nat \<Rightarrow> uspace" where
  "caller cap slots =
     \<lparr> nr_readable = True, nr_writable = True, nr_val = cap, buf_slots = slots,
       ubuf = (\<lambda>i. None) \<rparr>"


section \<open>The uid of a record\<close>

text \<open>
  With a \<^verbatim>\<open>long\<close> of 32 bits the uid 4294967294 is stored as \<open>-2\<close>, with a \<^verbatim>\<open>long\<close> of 64
  bits it is stored as it is; a uid below \<open>2^31\<close> is stored as it is on both.
\<close>

lemma long_cast_values:
  "long_cast 32 4294967294 = - 2 \<and> long_cast 64 4294967294 = 4294967294
   \<and> long_cast 32 2000 = 2000 \<and> long_cast 64 2000 = 2000"
  by (simp add: long_cast_def)

lemma long_cast_small: "0 \<le> x \<Longrightarrow> x < 2147483648 \<Longrightarrow> long_cast 32 x = x"
  by (simp add: long_cast_def)

section \<open>The outer loop of the walker\<close>

lemma store_at_props:
  assumes "store_at k knr kbuf it cur = Inr kbuf'"
  shows "length kbuf' = length kbuf"
    and "\<And>i. i < length kbuf \<Longrightarrow> kbuf' ! i \<noteq> kbuf ! i \<Longrightarrow> int i = it \<and> it < knr"
    and "it < knr \<Longrightarrow> 0 \<le> it \<and> nat it < length kbuf \<and> kbuf' ! nat it \<noteq> None"
  using assms
  by (auto simp: store_at_def nth_list_update split: if_splits sum.splits)

lemma loop_post_base:
  assumes "store_at k knr kbuf it cur = Inr kbuf'"
  shows "loop_post knr kbuf it kbuf' (it + 1)"
  unfolding loop_post_def
proof (intro conjI allI impI)
  show "it < it + 1" by simp
  show "length kbuf' = length kbuf" by (rule store_at_props(1)[OF assms])
next
  fix i assume "i < length kbuf" "kbuf' ! i \<noteq> kbuf ! i"
  from store_at_props(2)[OF assms this]
  show "it \<le> int i" "int i < it + 1" "int i < knr" by simp_all
next
  fix i assume "it \<le> int i \<and> int i < it + 1 \<and> int i < knr"
  then have e: "int i = it" and "it < knr" by auto
  from store_at_props(3)[OF assms \<open>it < knr\<close>] e
  show "i < length kbuf" "kbuf' ! i \<noteq> None" by auto
qed

lemma loop_post_step:
  assumes s: "store_at k knr kbuf it cur = Inr kbuf1"
    and p: "loop_post knr kbuf1 (it + 1) kbuf' it'"
  shows "loop_post knr kbuf it kbuf' it'"
proof -
  have len1: "length kbuf1 = length kbuf" by (rule store_at_props(1)[OF s])
  from p have lt: "it + 1 < it'" unfolding loop_post_def by blast
  from p have len: "length kbuf' = length kbuf1" unfolding loop_post_def by blast
  from p have ch: "\<And>i. i < length kbuf1 \<Longrightarrow> kbuf' ! i \<noteq> kbuf1 ! i \<Longrightarrow> it + 1 \<le> int i \<and> int i < it' \<and> int i < knr"
    unfolding loop_post_def by blast
  from p have wr: "\<And>i. it + 1 \<le> int i \<Longrightarrow> int i < it' \<Longrightarrow> int i < knr \<Longrightarrow> i < length kbuf1 \<and> kbuf' ! i \<noteq> None"
    unfolding loop_post_def by blast
  show ?thesis
    unfolding loop_post_def
  proof (intro conjI allI impI)
    show "it < it'" using lt by simp
    show "length kbuf' = length kbuf" using len len1 by simp
  next
    fix i assume i: "i < length kbuf" "kbuf' ! i \<noteq> kbuf ! i"
    have "it \<le> int i \<and> int i < it' \<and> int i < knr"
    proof (cases "kbuf' ! i = kbuf1 ! i")
      case True
      with i have "kbuf1 ! i \<noteq> kbuf ! i" by simp
      from store_at_props(2)[OF s i(1) this] lt show ?thesis by linarith
    next
      case False
      have "i < length kbuf1" using i(1) len1 by simp
      from ch[OF this False] show ?thesis by linarith
    qed
    then show "it \<le> int i" "int i < it'" "int i < knr" by simp_all
  next
    fix i assume i: "it \<le> int i \<and> int i < it' \<and> int i < knr"
    have "i < length kbuf \<and> kbuf' ! i \<noteq> None"
    proof (cases "int i = it")
      case True
      with i have "it < knr" by simp
      from store_at_props(3)[OF s this] True
      have a: "i < length kbuf" "kbuf1 ! i \<noteq> None" by auto
      have "kbuf' ! i = kbuf1 ! i"
      proof (rule ccontr)
        assume "kbuf' ! i \<noteq> kbuf1 ! i"
        have "i < length kbuf1" using a(1) len1 by simp
        from ch[OF this \<open>kbuf' ! i \<noteq> kbuf1 ! i\<close>] True show False by linarith
      qed
      with a show ?thesis by simp
    next
      case False
      with i have "it + 1 \<le> int i" by simp
      from wr[OF this] i len1 show ?thesis by simp
    qed
    then show "i < length kbuf" "kbuf' ! i \<noteq> None" by simp_all
  qed
qed

lemma dfs_loop_props:
  assumes "dfs_loop k knr kbuf it cur = Some r"
  shows "case r of Inl e \<Rightarrow> True | Inr (kbuf', it') \<Rightarrow> loop_post knr kbuf it kbuf' it'"
  using assms
proof (induction rule: dfs_loop.raw_induct[rotated 1, consumes 1])
  case (1 dfs_loop k knr kbuf it cur r)
  show ?case
  proof (cases "store_at k knr kbuf it cur")
    case (Inl e)
    with 1(2) show ?thesis by auto
  next
    case (Inr kbuf1)
    note st = this
    show ?thesis
    proof (cases "dfs_next k cur")
      case None
      with 1(2) st show ?thesis by simp
    next
      case (Some a)
      show ?thesis
      proof (cases a)
        case (Inl e)
        with 1(2) st Some show ?thesis by auto
      next
        case (Inr b)
        show ?thesis
        proof (cases b)
          case None
          with 1(2) st Some Inr have "r = Inr (kbuf1, it + 1)" by simp
          then show ?thesis using loop_post_base[OF st] by simp
        next
          case (Some c)
          with 1(2) st \<open>dfs_next k cur = Some a\<close> Inr
          have rec: "dfs_loop k knr kbuf1 (it + 1) c = Some r" by simp
          from 1(1)[OF rec] show ?thesis
            by (auto split: sum.splits intro: loop_post_step[OF st])
        qed
      qed
    qed
  qed
qed

lemma dfs_add_props:
  assumes "dfs_add k kbuf knr = Some (Inr (kbuf', knr', it'))"
  shows "loop_post knr kbuf 0 kbuf' it'" and "knr' = MIN_macro it' knr"
  using assms dfs_loop_props[of k knr kbuf 0 "init_task k"]
  by (auto simp: dfs_add_def MIN_macro_def split: option.splits sum.splits prod.splits if_splits)

lemma get_num_of_processes_length: "get_num_of_processes k = int (length (procs k))"
proof -
  have "foldl (\<lambda>count cur. count + 1) c xs = c + int (length xs)" for c :: int and xs :: "task_ptr list"
    by (induction xs arbitrary: c) auto
  then show ?thesis by (simp add: get_num_of_processes_def)
qed

lemma filter_written_le:
  assumes "\<And>i. i < length xs \<Longrightarrow> xs ! i \<noteq> None \<Longrightarrow> i < m"
  shows "length (filter (\<lambda>s. s \<noteq> None) xs) \<le> m"
proof -
  have "{i. i < length xs \<and> xs ! i \<noteq> None} \<subseteq> {..<m}" using assms by auto
  then have "card {i. i < length xs \<and> xs ! i \<noteq> None} \<le> card {..<m}"
    by (intro card_mono) auto
  then show ?thesis by (simp add: length_filter_conv_card)
qed

lemma dfs_add_positive:
  "dfs_add k kbuf n = Some (Inr (kbuf', knr', it')) \<Longrightarrow> 0 < it'"
  using dfs_add_props(1)[of k kbuf n kbuf' knr' it'] by (simp add: loop_post_def)

lemma dfs_add_written:
  assumes "dfs_add k (replicate m None) knr = Some (Inr (kbuf', knr', it'))"
  shows "length (filter (\<lambda>s. s \<noteq> None) kbuf') \<le> nat (MIN_macro it' knr)"
proof (rule filter_written_le)
  fix i assume i: "i < length kbuf'" "kbuf' ! i \<noteq> None"
  from dfs_add_props(1)[OF assms] have len: "length kbuf' = length (replicate m (None::prinfo option))"
    unfolding loop_post_def by blast
  from dfs_add_props(1)[OF assms]
  have ch: "\<And>i. i < length (replicate m (None::prinfo option)) \<Longrightarrow> kbuf' ! i \<noteq> replicate m None ! i \<Longrightarrow> int i < it' \<and> int i < knr"
    unfolding loop_post_def by blast
  from i len have "i < m" by simp
  moreover from this i have "kbuf' ! i \<noteq> replicate m None ! i" by simp
  ultimately have "int i < it' \<and> int i < knr" using ch[of i] by simp
  then show "i < nat (MIN_macro it' knr)" by (auto simp: MIN_macro_def)
qed

lemma dfs_add_written_exact:
  assumes "dfs_add k (replicate m None) knr = Some (Inr (kbuf', knr', it'))"
  shows "length (filter (\<lambda>s. s \<noteq> None) kbuf') = nat knr'"
proof -
  note p = dfs_add_props(1)[OF assms]
  from p have len: "length kbuf' = length (replicate m (None::prinfo option))"
    unfolding loop_post_def by blast
  from p have ch: "\<And>i. i < length (replicate m (None::prinfo option))
        \<Longrightarrow> kbuf' ! i \<noteq> replicate m None ! i \<Longrightarrow> int i < it' \<and> int i < knr"
    unfolding loop_post_def by blast
  from p have wr: "\<And>i. 0 \<le> int i \<and> int i < it' \<and> int i < knr
        \<Longrightarrow> i < length (replicate m (None::prinfo option)) \<and> kbuf' ! i \<noteq> None"
    unfolding loop_post_def by blast
  have k': "knr' = MIN_macro it' knr" by (rule dfs_add_props(2)[OF assms])
  have "{i. i < length kbuf' \<and> kbuf' ! i \<noteq> None} = {..<nat knr'}"
  proof (rule set_eqI)
    fix i
    show "i \<in> {i. i < length kbuf' \<and> kbuf' ! i \<noteq> None} \<longleftrightarrow> i \<in> {..<nat knr'}"
    proof
      assume "i \<in> {i. i < length kbuf' \<and> kbuf' ! i \<noteq> None}"
      then have i: "i < m" "kbuf' ! i \<noteq> None" using len by simp_all
      then have "kbuf' ! i \<noteq> replicate m None ! i" by simp
      with ch[of i] i(1) have "int i < it' \<and> int i < knr" by simp
      then show "i \<in> {..<nat knr'}" by (auto simp: k' MIN_macro_def)
    next
      assume "i \<in> {..<nat knr'}"
      then have "0 \<le> int i \<and> int i < it' \<and> int i < knr"
        by (auto simp: k' MIN_macro_def split: if_splits)
      from wr[OF this] len show "i \<in> {i. i < length kbuf' \<and> kbuf' ! i \<noteq> None}" by simp
    qed
  qed
  then show ?thesis by (simp add: length_filter_conv_card)
qed

section \<open>The walker stays inside the buffer\<close>

text \<open>
  The only error of the helpers is a wild pointer. The store of the loop is guarded by
  \<^verbatim>\<open>iterations < *knr\<close>, so a walk that starts at a counter that is not negative, with
  a buffer of at least \<^verbatim>\<open>*knr\<close> slots, never stores past the end of the buffer.
\<close>

lemma list_entry_error: "list_entry p = Inl e \<Longrightarrow> e = WildPointer"
  by (cases p) (simp_all add: list_entry_def)

lemma store_node_error: "store_node k x = Inl e \<Longrightarrow> e = WildPointer"
  by (auto simp: store_node_def get_youngest_child_pid_def get_next_sibling_pid_def
           split: sum.splits if_splits dest: list_entry_error)

lemma dfs_next_error: "dfs_next k x = Some (Inl e) \<Longrightarrow> e = WildPointer"
  by (auto simp: dfs_next_def list_first_entry_def
           split: sum.splits if_splits option.splits dest: list_entry_error)

lemma store_at_in_bounds:
  assumes "0 \<le> it" and "knr \<le> int (length kbuf)"
  shows "store_at k knr kbuf it cur \<noteq> Inl BufferOverflow"
  using assms by (auto simp: store_at_def split: sum.splits dest: store_node_error)

lemma dfs_loop_in_bounds:
  assumes "dfs_loop k knr kbuf it cur = Some r"
  shows "0 \<le> it \<Longrightarrow> knr \<le> int (length kbuf) \<Longrightarrow> r \<noteq> Inl BufferOverflow"
  using assms
proof (induction rule: dfs_loop.raw_induct[rotated 1, consumes 1])
  case (1 dfs_loop' k knr kbuf it cur r)
  note ib = store_at_in_bounds[OF "1.prems", of k cur]
  show ?case
  proof (cases "store_at k knr kbuf it cur")
    case (Inl e)
    with 1(2) ib show ?thesis by auto
  next
    case (Inr kbuf1)
    note st = this
    from store_at_props(1)[OF st] "1.prems"(2) have len: "knr \<le> int (length kbuf1)" by simp
    from "1.prems"(1) have it: "0 \<le> it + 1" by simp
    show ?thesis
    proof (cases "dfs_next k cur")
      case None
      with 1(2) st show ?thesis by simp
    next
      case (Some a)
      show ?thesis
      proof (cases a)
        case (Inl e)
        with Some dfs_next_error[of k cur e] 1(2) st show ?thesis by auto
      next
        case (Inr b)
        show ?thesis
        proof (cases b)
          case None
          with 1(2) st Some Inr show ?thesis by auto
        next
          case (Some c)
          with 1(2) st \<open>dfs_next k cur = Some a\<close> Inr
          have "dfs_loop' k knr kbuf1 (it + 1) c = Some r" by simp
          from 1(1)[OF this it len] show ?thesis .
        qed
      qed
    qed
  qed
qed

lemma dfs_add_in_bounds:
  "knr \<le> int (length kbuf) \<Longrightarrow> dfs_add k kbuf knr \<noteq> Some (Inl BufferOverflow)"
  using dfs_loop_in_bounds[of k knr kbuf 0 "init_task k"]
  by (auto simp: dfs_add_def split: option.splits sum.splits)

section \<open>A smaller capacity keeps a prefix\<close>

text \<open>
  The tasks the walker visits do not depend on the capacity. Whenever the walk with the
  capacity \<open>n\<close> returns, the walk with a capacity \<open>m \<le> n\<close> returns too, with the same
  number of iterations and the first \<open>m\<close> slots of the same buffer.
\<close>

lemma store_at_take:
  assumes "store_at k n kbuf it cur = Inr kbuf1" and "m \<le> n"
  shows "store_at k m (take (nat m) kbuf) it cur = Inr (take (nat m) kbuf1)"
proof (cases "it < m")
  case True
  with assms(2) have "it < n" by simp
  with assms(1) obtain r where r: "store_node k cur = Inr r" "0 \<le> it" "nat it < length kbuf"
    "kbuf1 = kbuf[nat it := Some r]"
    by (auto simp: store_at_def split: if_splits sum.splits)
  from True r(2,3) have "int (length (take (nat m) kbuf)) > it" by auto
  with True r show ?thesis
    by (simp add: store_at_def take_update_swap)
next
  case False
  then have le: "nat m \<le> nat it" by simp
  have "take (nat m) kbuf1 = take (nat m) kbuf"
    using assms(1) le by (auto simp: store_at_def split: if_splits sum.splits)
  with False show ?thesis by (simp add: store_at_def)
qed

lemma dfs_loop_prefix:
  assumes "dfs_loop k n kbuf it cur = Some r"
  shows "case r of Inl e \<Rightarrow> True
         | Inr (kbuf1, it1) \<Rightarrow>
             (\<forall>m\<le>n. dfs_loop k m (take (nat m) kbuf) it cur
                        = Some (Inr (take (nat m) kbuf1, it1)))"
  using assms
proof (induction rule: dfs_loop.raw_induct[rotated 1, consumes 1])
  case (1 dfs_loop' k n kbuf it cur r)
  show ?case
  proof (cases r)
    case (Inl e)
    then show ?thesis by simp
  next
    case (Inr res)
    obtain kbuf1 it1 where res: "res = (kbuf1, it1)" by (cases res)
    from 1(2) Inr obtain kb where st: "store_at k n kbuf it cur = Inr kb"
      by (auto split: sum.splits)
    from 1(2) Inr st obtain nx where nx: "dfs_next k cur = Some (Inr nx)"
      by (auto split: option.splits sum.splits)
    have "dfs_loop k m (take (nat m) kbuf) it cur = Some (Inr (take (nat m) kbuf1, it1))"
      if m: "m \<le> n" for m
    proof (cases nx)
      case None
      with 1(2) Inr res st nx have "kbuf1 = kb" "it1 = it + 1" by simp_all
      with store_at_take[OF st m] nx None show ?thesis
        by (subst dfs_loop.simps) simp
    next
      case (Some c)
      with 1(2) st nx have "dfs_loop' k n kb (it + 1) c = Some r" by simp
      from 1(1)[OF this] Inr res m
      have "dfs_loop k m (take (nat m) kb) (it + 1) c = Some (Inr (take (nat m) kbuf1, it1))"
        by simp
      with store_at_take[OF st m] nx Some show ?thesis
        by (subst dfs_loop.simps) simp
    qed
    with Inr res show ?thesis by simp
  qed
qed

lemma dfs_add_prefix:
  assumes "dfs_add k (replicate (nat n) None) n = Some (Inr (kbuf, knr, it))"
    and "m \<le> n"
  shows "dfs_add k (replicate (nat m) None) m
           = Some (Inr (take (nat m) kbuf, MIN_macro it m, it))"
proof -
  from assms(1) have l: "dfs_loop k n (replicate (nat n) None) 0 (init_task k) = Some (Inr (kbuf, it))"
    by (auto simp: dfs_add_def split: option.splits sum.splits)
  from dfs_loop_prefix[OF l] assms(2)
  have "dfs_loop k m (take (nat m) (replicate (nat n) None)) 0 (init_task k)
          = Some (Inr (take (nat m) kbuf, it))" by simp
  moreover have "take (nat m) (replicate (nat n) None) = replicate (nat m) (None::prinfo option)"
    using assms(2) by (simp add: min_def)
  ultimately show ?thesis by (simp add: dfs_add_def MIN_macro_def)
qed

section \<open>A tree that has only the root\<close>

text \<open>
  \<^verbatim>\<open>init_task\<close> without children has an empty list of children, and its \<^verbatim>\<open>sibling\<close>
  node is linked to itself, so it is not the last node before the list head of its
  parent: the walker takes the second branch, moves to \<^verbatim>\<open>init_task\<close> again, and the
  loop never ends. A running kernel does not have this tree, \<^verbatim>\<open>init_task\<close> has
  children before the first system call.
\<close>

lemma root_only_loop:
  assumes "dfs_loop k knr kbuf it cur = Some r"
  shows "\<not> (k = kernel_of root_only \<and> cur = 0 \<and> 0 \<le> it \<and> knr \<le> int (length kbuf))"
  using assms
proof (induction rule: dfs_loop.raw_induct[rotated 1, consumes 1])
  case (1 dfs_loop' k knr kbuf it cur r)
  show ?case
  proof
    assume a: "k = kernel_of root_only \<and> cur = 0 \<and> 0 \<le> it \<and> knr \<le> int (length kbuf)"
    have nx: "dfs_next (kernel_of root_only) 0 = Some (Inr (Some 0))" by code_simp
    have "store_node (kernel_of root_only) 0
            = Inr \<lparr> parent_pid = 0, pid = 0, first_child_pid = 0, next_sibling_pid = 0,
                    state = 0, uid = 0, comm = ''swapper'' \<rparr>"
      by code_simp
    then have "\<exists>kb. store_at k knr kbuf it cur = Inr kb \<and> length kb = length kbuf"
      using a by (cases "it < knr") (simp_all add: store_at_def)
    then obtain kb where st: "store_at k knr kbuf it cur = Inr kb" and len: "length kb = length kbuf"
      by blast
    from 1(2) st nx a have "dfs_loop' k knr kb (it + 1) 0 = Some r" by simp
    from 1(1)[OF this] a len show False by simp
  qed
qed

lemma root_only_walk_hangs:
  "dfs_add (kernel_of root_only) (replicate 1 None) 1 = None"
proof -
  have "init_task (kernel_of root_only) = 0" by code_simp
  with root_only_loop[of "kernel_of root_only" 1 "replicate 1 None" 0 0]
  have "dfs_loop (kernel_of root_only) 1 (replicate 1 None) 0 (init_task (kernel_of root_only)) = None"
    by (cases "dfs_loop (kernel_of root_only) 1 (replicate 1 None) 0 0") auto
  then show ?thesis by (simp add: dfs_add_def)
qed

section \<open>The system call\<close>

lemma copy_to_user_nr:
  "copy_to_user e u src n = (l, u') \<Longrightarrow> nr_val u' = nr_val u \<and> nr_writable u' = nr_writable u"
  by (auto simp: copy_to_user_def Let_def)

lemma copy_to_user_slots:
  "copy_to_user e u src n = (l, u') \<Longrightarrow> ubuf u' i \<noteq> ubuf u i \<Longrightarrow> i < n"
  by (auto simp: copy_to_user_def Let_def split: if_splits)

lemma kmalloc_array_fresh:
  "kmalloc_array e n = Some kbuf \<Longrightarrow> kbuf = replicate (nat n) None"
  by (auto simp: kmalloc_array_def split: if_splits)

lemma sys_ptree_success:
  assumes "outcome (sys_ptree e kp kw u buf nr) = Returns tot" and "0 \<le> tot"
  shows "\<exists>kbuf kbuf' kslots'.
           buf \<noteq> NULL \<and> nr \<noteq> NULL \<and> nr_readable u \<and> 1 \<le> nr_val u \<and> nr_writable u
           \<and> kmalloc_array e (kslots_of kp u) = Some kbuf
           \<and> dfs_add kw kbuf (kslots_of kp u) = Some (Inr (kbuf', kslots', tot))
           \<and> user (sys_ptree e kp kw u buf nr)
               = (snd (copy_to_user e u kbuf' (nat kslots')))\<lparr>nr_val := kslots'\<rparr>"
  using assms
  by (auto simp: sys_ptree_def get_user_def put_user_def kslots_of_def Let_def
                 EINVAL_def EFAULT_def ENOMEM_def
           split: if_splits option.splits sum.splits prod.splits
           dest: copy_to_user_nr)

lemma sys_ptree_in_bounds:
  "outcome (sys_ptree e kp kw u buf nr) \<noteq> Faults BufferOverflow"
proof -
  have "dfs_add kw kbuf (kslots_of kp u) \<noteq> Some (Inl BufferOverflow)"
    if "kmalloc_array e (kslots_of kp u) = Some kbuf" for kbuf
  proof -
    from kmalloc_array_fresh[OF that] have "kslots_of kp u \<le> int (length kbuf)" by simp
    then show ?thesis by (rule dfs_add_in_bounds)
  qed
  then show ?thesis
    unfolding kslots_of_def
    by (auto simp: sys_ptree_def Let_def get_user_def
             split: if_splits option.splits sum.splits prod.splits)
qed

text \<open>
  Claim C6. No call stores a record past the end of the buffer it allocated: the walker
  stores only while the counter is below the number of slots. A call that returns a
  count (a result that is not negative) had a capacity of at least 1; the count it
  writes to \<^verbatim>\<open>nr\<close> is the smaller of the number of slots allocated and the number of
  tasks visited, so it is at most the capacity and at most the number of tasks visited;
  every slot of the caller's buffer that it changes has an index below both; and the
  walker, run on the freshly allocated buffer, has stored records in exactly as many
  slots as the count written to \<^verbatim>\<open>nr\<close>.
\<close>

theorem recorded_count_bounded:
  "outcome (sys_ptree e kp kw u buf nr) \<noteq> Faults BufferOverflow
   \<and> (outcome (sys_ptree e kp kw u buf nr) = Returns tot \<and> 0 \<le> tot \<longrightarrow>
       1 \<le> nr_val u
       \<and> nr_val (user (sys_ptree e kp kw u buf nr)) = min (kslots_of kp u) tot
       \<and> nr_val (user (sys_ptree e kp kw u buf nr)) \<le> min (nr_val u) tot
       \<and> (\<forall>i. ubuf (user (sys_ptree e kp kw u buf nr)) i \<noteq> ubuf u i
               \<longrightarrow> int i < min (nr_val u) tot)
       \<and> (\<exists>kbuf kbuf'. kmalloc_array e (kslots_of kp u) = Some kbuf
             \<and> dfs_add kw kbuf (kslots_of kp u)
                 = Some (Inr (kbuf', nr_val (user (sys_ptree e kp kw u buf nr)), tot))
             \<and> length (filter (\<lambda>s. s \<noteq> None) kbuf')
                 = nat (nr_val (user (sys_ptree e kp kw u buf nr)))
             \<and> length (filter (\<lambda>s. s \<noteq> None) kbuf') \<le> nat (min (nr_val u) tot)))"
proof (rule conjI, rule sys_ptree_in_bounds, rule impI)
  assume a: "outcome (sys_ptree e kp kw u buf nr) = Returns tot \<and> 0 \<le> tot"
  then have hs: "outcome (sys_ptree e kp kw u buf nr) = Returns tot" "0 \<le> tot" by simp_all
  show "1 \<le> nr_val u
       \<and> nr_val (user (sys_ptree e kp kw u buf nr)) = min (kslots_of kp u) tot
       \<and> nr_val (user (sys_ptree e kp kw u buf nr)) \<le> min (nr_val u) tot
       \<and> (\<forall>i. ubuf (user (sys_ptree e kp kw u buf nr)) i \<noteq> ubuf u i
               \<longrightarrow> int i < min (nr_val u) tot)
       \<and> (\<exists>kbuf kbuf'. kmalloc_array e (kslots_of kp u) = Some kbuf
             \<and> dfs_add kw kbuf (kslots_of kp u)
                 = Some (Inr (kbuf', nr_val (user (sys_ptree e kp kw u buf nr)), tot))
             \<and> length (filter (\<lambda>s. s \<noteq> None) kbuf')
                 = nat (nr_val (user (sys_ptree e kp kw u buf nr)))
             \<and> length (filter (\<lambda>s. s \<noteq> None) kbuf') \<le> nat (min (nr_val u) tot))"
  proof -
    from sys_ptree_success[OF hs] obtain kbuf kbuf' kslots' where
      cap: "1 \<le> nr_val u"
      and km: "kmalloc_array e (kslots_of kp u) = Some kbuf"
      and dfs: "dfs_add kw kbuf (kslots_of kp u) = Some (Inr (kbuf', kslots', tot))"
      and usr: "user (sys_ptree e kp kw u buf nr)
                 = (snd (copy_to_user e u kbuf' (nat kslots')))\<lparr>nr_val := kslots'\<rparr>"
      by blast
    have ks: "kslots_of kp u \<le> nr_val u" by (simp add: kslots_of_def MIN_macro_def)
    from dfs_add_props(2)[OF dfs] have k': "kslots' = MIN_macro tot (kslots_of kp u)" .
    with ks have le: "kslots' \<le> min (nr_val u) tot" by (simp add: MIN_macro_def)
    have nrv: "nr_val (user (sys_ptree e kp kw u buf nr)) = kslots'" using usr by simp
    have sl: "int i < min (nr_val u) tot"
      if "ubuf (user (sys_ptree e kp kw u buf nr)) i \<noteq> ubuf u i" for i
    proof -
      obtain l u' where c: "copy_to_user e u kbuf' (nat kslots') = (l, u')"
        by (cases "copy_to_user e u kbuf' (nat kslots')")
      with usr that have "ubuf u' i \<noteq> ubuf u i" by simp
      from copy_to_user_slots[OF c this] le show ?thesis by linarith
    qed
    from dfs kmalloc_array_fresh[OF km]
    have "length (filter (\<lambda>s. s \<noteq> None) kbuf') \<le> nat (MIN_macro tot (kslots_of kp u))"
      using dfs_add_written by blast
    with ks have wr: "length (filter (\<lambda>s. s \<noteq> None) kbuf') \<le> nat (min (nr_val u) tot)"
      by (simp add: MIN_macro_def split: if_splits)
    from dfs kmalloc_array_fresh[OF km]
    have ex: "length (filter (\<lambda>s. s \<noteq> None) kbuf') = nat kslots'"
      using dfs_add_written_exact by blast
    have eq: "kslots' = min (kslots_of kp u) tot" using k' by (simp add: MIN_macro_def min_def)
    show ?thesis using cap le nrv sl km dfs wr ex eq by auto
  qed
qed

theorem recorded_count_bounded_witness:
  "outcome (sys_ptree board (kernel_of scenario_tree) (kernel_of scenario_tree) (caller 2 2) 1 2)
     = Returns 4
   \<and> nr_val (user (sys_ptree board (kernel_of scenario_tree) (kernel_of scenario_tree)
                      (caller 2 2) 1 2)) \<le> min 2 4"
proof -
  have h: "outcome (sys_ptree board (kernel_of scenario_tree) (kernel_of scenario_tree)
                      (caller 2 2) 1 2) = Returns 4"
    by code_simp
  have c: "nr_val (caller 2 2) = 2" by (simp add: caller_def)
  from recorded_count_bounded[of board "kernel_of scenario_tree" "kernel_of scenario_tree"
      "caller 2 2" 1 2 4] h c
  show ?thesis by simp
qed

text \<open>
  Claim C7. When the arguments are valid, the call takes the lock, releases it and then
  asks the allocator, once, for \<open>min (n + 15) capacity\<close> slots, where \<open>n\<close> is the number
  of processes counted; the allocator either fails, and the call returns \<^verbatim>\<open>-ENOMEM\<close>,
  or gives a buffer of exactly that many slots.
\<close>

theorem buffer_has_min_slots:
  assumes "buf \<noteq> NULL" "nr \<noteq> NULL" "nr_readable u" "1 \<le> nr_val u"
  shows "take 3 (calls (sys_ptree e kp kw u buf nr))
           = [Read_lock, Read_unlock,
              Kmalloc_array (min (get_num_of_processes kp + 15) (nr_val u))]
       \<and> [n. Kmalloc_array n \<leftarrow> calls (sys_ptree e kp kw u buf nr)]
           = [min (get_num_of_processes kp + 15) (nr_val u)]
       \<and> (case kmalloc_array e (min (get_num_of_processes kp + 15) (nr_val u)) of
            None \<Rightarrow> outcome (sys_ptree e kp kw u buf nr) = Returns (- ENOMEM)
          | Some kbuf \<Rightarrow> int (length kbuf) = min (get_num_of_processes kp + 15) (nr_val u))"
proof -
  have m: "MIN_macro (get_num_of_processes kp + EXTRA_SLOTS) (nr_val u)
             = min (get_num_of_processes kp + 15) (nr_val u)"
    by (simp add: MIN_macro_def EXTRA_SLOTS_def min_def)
  have n0: "0 \<le> get_num_of_processes kp" by (simp add: get_num_of_processes_length)
  show ?thesis
    using assms n0
    by (auto simp: sys_ptree_def get_user_def Let_def m kmalloc_array_def
             split: option.splits sum.splits prod.splits if_splits)
qed

theorem buffer_has_min_slots_witness:
  "(1::nat) \<noteq> NULL \<and> (2::nat) \<noteq> NULL \<and> nr_readable (caller 100 100) \<and> 1 \<le> nr_val (caller 100 100)
   \<and> [n. Kmalloc_array n \<leftarrow> calls (sys_ptree board (kernel_of scenario_tree)
                                        (kernel_of scenario_tree) (caller 100 100) 1 2)]
       = [18]"
proof -
  have h: "(1::nat) \<noteq> NULL" "(2::nat) \<noteq> NULL" "nr_readable (caller 100 100)"
    "1 \<le> nr_val (caller 100 100)"
    by (simp_all add: NULL_def caller_def)
  have n: "get_num_of_processes (kernel_of scenario_tree) = 3" by code_simp
  have c: "nr_val (caller 100 100) = 100" by (simp add: caller_def)
  from buffer_has_min_slots[OF h, of board "kernel_of scenario_tree" "kernel_of scenario_tree"] h n c
  show ?thesis by simp
qed

text \<open>
  Claim C8. If the buffer pointer or the count pointer is null, or the capacity read from
  the count pointer is less than 1, the call returns \<^verbatim>\<open>-EINVAL\<close>; it has not taken the
  lock, has not allocated and has not walked, and the caller's memory is as it was.
\<close>

theorem invalid_argument_rejected:
  assumes "buf = NULL \<or> nr = NULL \<or> (nr_readable u \<and> nr_val u < 1)"
  shows "sys_ptree e kp kw u buf nr = \<lparr> outcome = Returns (- EINVAL), user = u, calls = [] \<rparr>"
  using assms by (auto simp: sys_ptree_def get_user_def)

theorem invalid_argument_rejected_witness:
  "((1::nat) = NULL \<or> (2::nat) = NULL \<or> (nr_readable (caller 0 10) \<and> nr_val (caller 0 10) < 1))
   \<and> sys_ptree board (kernel_of scenario_tree) (kernel_of scenario_tree) (caller 0 10) 1 2
       = \<lparr> outcome = Returns (- EINVAL), user = caller 0 10, calls = [] \<rparr>"
proof -
  have h: "(1::nat) = NULL \<or> (2::nat) = NULL \<or> (nr_readable (caller 0 10) \<and> nr_val (caller 0 10) < 1)"
    by (simp add: caller_def)
  from invalid_argument_rejected[OF h] h show ?thesis by blast
qed

text \<open>
  Claim C10. Whenever the call returns a negative number, the \<^verbatim>\<open>int\<close> at \<^verbatim>\<open>nr\<close> holds
  what it held before the call.
\<close>

theorem error_leaves_nr_unchanged:
  assumes "outcome (sys_ptree e kp kw u buf nr) = Returns r" and "r < 0"
  shows "nr_val (user (sys_ptree e kp kw u buf nr)) = nr_val u"
  using assms
  by (auto simp: sys_ptree_def get_user_def put_user_def Let_def
           split: if_splits option.splits sum.splits prod.splits
           dest: dfs_add_positive copy_to_user_nr)

theorem error_leaves_nr_unchanged_witness:
  "outcome (sys_ptree board (kernel_of scenario_tree) (kernel_of scenario_tree)
              ((caller 10 10)\<lparr>nr_writable := False\<rparr>) 1 2) = Returns (- 14)
   \<and> nr_val (user (sys_ptree board (kernel_of scenario_tree) (kernel_of scenario_tree)
                      ((caller 10 10)\<lparr>nr_writable := False\<rparr>) 1 2)) = 10"
proof -
  have h: "outcome (sys_ptree board (kernel_of scenario_tree) (kernel_of scenario_tree)
                      ((caller 10 10)\<lparr>nr_writable := False\<rparr>) 1 2) = Returns (- 14)"
    by code_simp
  have c: "nr_val ((caller 10 10)\<lparr>nr_writable := False\<rparr>) = 10" by (simp add: caller_def)
  from error_leaves_nr_unchanged[OF h] h c show ?thesis by simp
qed

section \<open>The memory that represents a tree\<close>

lemma link_keys:
  "map fst (link_task par pv nx t) = pids t"
  "map fst (link_kids par pv ks) = concat (map pids ks)"
  by (induction par pv nx t and par pv ks rule: link_task_link_kids.induct) auto

lemma tpid_in_pids: "tpid t \<in> set (pids t)"
  by (cases t) simp

lemma subtrees_pids: "s \<in> set (subtrees t) \<Longrightarrow> set (pids s) \<subseteq> set (pids t)"
  by (induction t) (auto)

lemma subtree_pid: "s \<in> set (subtrees t) \<Longrightarrow> tpid s \<in> set (pids t)"
  using subtrees_pids tpid_in_pids by blast

lemma subtrees_self: "t \<in> set (subtrees t)"
  by (cases t) simp

lemma subtrees_trans: "s \<in> set (subtrees t) \<Longrightarrow> r \<in> set (subtrees s) \<Longrightarrow> r \<in> set (subtrees t)"
  by (induction t) auto

lemma kid_subtree: "s \<in> set (subtrees t) \<Longrightarrow> c \<in> set (kids s) \<Longrightarrow> c \<in> set (subtrees t)"
proof -
  assume a: "s \<in> set (subtrees t)" and c: "c \<in> set (kids s)"
  have "c \<in> set (subtrees s)" using c subtrees_self[of c] by (cases s) auto
  with a show ?thesis by (rule subtrees_trans)
qed

lemma subtrees_kids_pid:
  "s \<in> set (concat (map subtrees ks)) \<Longrightarrow> tpid s \<in> set (concat (map pids ks))"
  using subtree_pid by fastforce

lemma link_lookup:
  "s \<in> set (subtrees t) \<Longrightarrow> distinct (pids t)
     \<Longrightarrow> (case nx of Sibling q \<Rightarrow> True | Children q \<Rightarrow> q = par)
     \<Longrightarrow> \<exists>ts. map_of (link_task par pv nx t) (tpid s) = Some ts \<and> node_struct s ts"
  "s \<in> set (concat (map subtrees ks)) \<Longrightarrow> distinct (concat (map pids ks))
     \<Longrightarrow> \<exists>ts. map_of (link_kids par pv ks) (tpid s) = Some ts \<and> node_struct s ts"
proof (induction par pv nx t and par pv ks arbitrary: s and s rule: link_task_link_kids.induct)
  case (1 par pv nx p st u c ks)
  show ?case
  proof (cases "s = Proc p st u c ks")
    case True
    with "1.prems"(3) show ?thesis
      by (auto simp: node_struct_def split: list.splits list_ptr.splits)
  next
    case False
    with "1.prems"(1) have in_kids: "s \<in> set (concat (map subtrees ks))" by simp
    from "1.prems"(2) have d: "distinct (concat (map pids ks))"
      and np: "p \<notin> set (concat (map pids ks))" by simp_all
    from subtrees_kids_pid[OF in_kids] np have "tpid s \<noteq> p" by auto
    with "1.IH"[OF in_kids d] show ?thesis by simp
  qed
next
  case (2 par pv)
  then show ?case by simp
next
  case (3 par pv k ks)
  let ?nx = "case ks of [] \<Rightarrow> Children par | k' # _ \<Rightarrow> Sibling (tpid k')"
  have inv: "case ?nx of Sibling q \<Rightarrow> True | Children q \<Rightarrow> q = par"
    by (simp split: list.splits)
  from "3.prems"(2) have dk: "distinct (pids k)" and dks: "distinct (concat (map pids ks))"
    and disj: "set (pids k) \<inter> set (concat (map pids ks)) = {}" by simp_all
  show ?case
  proof (cases "s \<in> set (subtrees k)")
    case True
    from "3.IH"(1)[OF True dk inv] obtain ts where
      "map_of (link_task par pv ?nx k) (tpid s) = Some ts" "node_struct s ts" by blast
    then show ?thesis by (auto simp: map_add_def)
  next
    case False
    with "3.prems"(1) have in_ks: "s \<in> set (concat (map subtrees ks))" by simp
    from subtrees_kids_pid[OF in_ks] disj have "tpid s \<notin> set (pids k)" by auto
    then have "tpid s \<notin> fst ` set (link_task par pv ?nx k)"
      using link_keys(1)[of par pv ?nx k] by (metis set_map)
    then have "map_of (link_task par pv ?nx k) (tpid s) = None"
      by (rule iffD2[OF map_of_eq_None_iff])
    with "3.IH"(2)[OF in_ks dks] show ?thesis by (auto simp: map_add_def)
  qed
qed

lemma kernel_of_task:
  assumes "s \<in> set (subtrees t)" "distinct (pids t)"
  shows "node_struct s (task (kernel_of t) (tpid s))"
proof -
  from link_lookup(1)[OF assms, where nx = "Sibling (tpid t)" and par = "tpid t" and pv = "Sibling (tpid t)"]
  show ?thesis by (auto simp: kernel_of_def)
qed

lemma distinct_kid:
  "distinct (concat (map pids ks)) \<Longrightarrow> k \<in> set ks \<Longrightarrow> distinct (pids k)"
  by (induction ks) auto

lemma distinct_subtree:
  "s \<in> set (subtrees t) \<Longrightarrow> distinct (pids t) \<Longrightarrow> distinct (pids s)"
proof (induction t)
  case (Proc p st u c ks)
  show ?case
  proof (cases "s = Proc p st u c ks")
    case True
    with Proc.prems show ?thesis by simp
  next
    case False
    with Proc.prems(1) obtain k where k: "k \<in> set ks" "s \<in> set (subtrees k)" by auto
    from Proc.prems(2) have "distinct (concat (map pids ks))" by simp
    from distinct_kid[OF this k(1)] Proc.IH[OF k] show ?thesis by simp
  qed
qed

lemma distinct_kid_pids:
  "distinct (concat (map pids ks)) \<Longrightarrow> distinct (map tpid ks)"
proof (induction ks)
  case Nil
  then show ?case by simp
next
  case (Cons k ks)
  then have d: "distinct (map tpid ks)" and disj: "set (pids k) \<inter> set (concat (map pids ks)) = {}"
    by simp_all
  have "tpid k \<notin> tpid ` set ks"
  proof
    assume "tpid k \<in> tpid ` set ks"
    then obtain k' where k': "k' \<in> set ks" "tpid k = tpid k'" by auto
    from k'(1) tpid_in_pids[of k'] have "tpid k' \<in> set (concat (map pids ks))" by auto
    with k'(2) tpid_in_pids[of k] disj show False by auto
  qed
  with d show ?case by simp
qed

lemma last_eq_hd_distinct:
  "distinct xs \<Longrightarrow> xs \<noteq> [] \<Longrightarrow> (last xs = hd xs) = (length xs = 1)"
  by (cases xs) auto

lemma store_node_of_tree:
  assumes node: "s \<in> set (subtrees t)" and dist: "distinct (pids t)"
  shows "\<exists>pp ns. store_node (kernel_of t) (tpid s)
           = Inr \<lparr> parent_pid = pp, pid = tpid s,
                   first_child_pid = (case kids s of [] \<Rightarrow> 0 | _ # _ \<Rightarrow> tpid (last (kids s))),
                   next_sibling_pid = ns, state = tstate s,
                   uid = long_cast 32 (tuid s), comm = tcomm s \<rparr>"
proof -
  let ?k = "kernel_of t"
  from kernel_of_task[OF node dist] have ns: "node_struct s (task ?k (tpid s))" .
  then have sib: "case next (sibling (task ?k (tpid s))) of Sibling q \<Rightarrow> True
                    | Children q \<Rightarrow> q = real_parent (task ?k (tpid s))"
    and flds: "t_pid (task ?k (tpid s)) = tpid s" "t_state (task ?k (tpid s)) = tstate s"
      "t_uid (task ?k (tpid s)) = tuid s" "t_comm (task ?k (tpid s)) = tcomm s"
    by (simp_all add: node_struct_def)
  have young: "get_youngest_child_pid ?k (tpid s)
                 = Inr (case kids s of [] \<Rightarrow> 0 | _ # _ \<Rightarrow> tpid (last (kids s)))"
  proof (cases "kids s")
    case Nil
    with ns have "children (task ?k (tpid s)) = \<lparr> next = Children (tpid s), prev = Children (tpid s) \<rparr>"
      by (simp add: node_struct_def)
    with Nil show ?thesis
      by (simp add: get_youngest_child_pid_def list_empty_def deref_def)
  next
    case (Cons k1 rest)
    with ns have ch: "children (task ?k (tpid s))
        = \<lparr> next = Sibling (tpid k1), prev = Sibling (tpid (last (kids s))) \<rparr>"
      by (simp add: node_struct_def)
    from Cons have "last (kids s) \<in> set (kids s)" by simp
    from kernel_of_task[OF kid_subtree[OF node this] dist]
    have "t_pid (task ?k (tpid (last (kids s)))) = tpid (last (kids s))"
      by (simp add: node_struct_def)
    with Cons ch show ?thesis
      by (simp add: get_youngest_child_pid_def list_empty_def deref_def list_entry_def
                    task_pid_nr_def)
  qed
  have "\<exists>ns. get_next_sibling_pid ?k (tpid s) = Inr ns"
    using sib
    by (auto simp: get_next_sibling_pid_def list_is_last_def deref_def list_entry_def
             split: list_ptr.splits)
  then obtain ns where "get_next_sibling_pid ?k (tpid s) = Inr ns" ..
  moreover have "BITS_PER_LONG ?k = 32" by (simp add: kernel_of_def)
  ultimately show ?thesis
    by (simp add: store_node_def young task_pid_nr_def flds)
qed

section \<open>Parents and siblings in the memory of a tree\<close>

lemma link_task_head_ex:
  "\<exists>ts. map_of (link_task par pv nx t) (tpid t) = Some ts \<and> placed par nx t ts"
  by (cases t) (auto simp: placed_def split: list.splits)

lemma map_of_skip:
  assumes "a \<notin> set (pids k)"
  shows "map_of (link_task par pv nx k @ rest) a = map_of rest a"
proof -
  from assms have "a \<notin> fst ` set (link_task par pv nx k)"
    using link_keys(1)[of par pv nx k] by (metis set_map)
  then have "map_of (link_task par pv nx k) a = None"
    by (rule iffD2[OF map_of_eq_None_iff])
  then show ?thesis by (simp add: map_add_def)
qed

lemma link_kids_direct:
  "distinct (concat (map pids ks)) \<Longrightarrow> ks = pre @ c # rest
     \<Longrightarrow> \<exists>ts. map_of (link_kids par pv ks) (tpid c) = Some ts \<and> placed par (nxt par rest) c ts"
proof (induction ks arbitrary: pv pre)
  case Nil
  then show ?case by simp
next
  case (Cons k ks)
  show ?case
  proof (cases pre)
    case Nil
    with Cons.prems(2) have kc: "k = c" "ks = rest" by simp_all
    from link_task_head_ex[of par pv "nxt par rest" c]
    obtain ts where "map_of (link_task par pv (nxt par rest) c) (tpid c) = Some ts"
      "placed par (nxt par rest) c ts" by blast
    with kc show ?thesis by (auto simp: nxt_def map_add_def)
  next
    case (Cons k' pre')
    with Cons.prems(2) have ks: "k' = k" "ks = pre' @ c # rest" by simp_all
    from Cons.prems(1) have d: "distinct (concat (map pids ks))"
      and disj: "set (pids k) \<inter> set (concat (map pids ks)) = {}" by simp_all
    have "tpid c \<in> set (concat (map pids ks))" using ks(2) tpid_in_pids[of c] by auto
    with disj have "tpid c \<notin> set (pids k)" by auto
    from map_of_skip[OF this] Cons.IH[OF d ks(2)] show ?thesis by simp
  qed
qed

lemma link_lookup_placed:
  "q \<in> set (subtrees t) \<Longrightarrow> distinct (pids t) \<Longrightarrow> kids q = pre @ c # rest
     \<Longrightarrow> \<exists>ts. map_of (link_task par pv nx t) (tpid c) = Some ts
              \<and> placed (tpid q) (nxt (tpid q) rest) c ts"
  "q \<in> set (concat (map subtrees ks)) \<Longrightarrow> distinct (concat (map pids ks))
     \<Longrightarrow> kids q = pre @ c # rest
     \<Longrightarrow> \<exists>ts. map_of (link_kids par pv ks) (tpid c) = Some ts
              \<and> placed (tpid q) (nxt (tpid q) rest) c ts"
proof (induction par pv nx t and par pv ks arbitrary: q and q rule: link_task_link_kids.induct)
  case (1 par pv nx p st u cm ks)
  from "1.prems"(2) have d: "distinct (concat (map pids ks))"
    and np: "p \<notin> set (concat (map pids ks))" by simp_all
  have cq: "tpid c \<in> set (pids q)" using "1.prems"(3) tpid_in_pids[of c] by (cases q) auto
  show ?case
  proof (cases "q = Proc p st u cm ks")
    case True
    with "1.prems"(3) have ks: "ks = pre @ c # rest" by simp
    then have "tpid c \<in> set (concat (map pids ks))" using tpid_in_pids[of c] by auto
    with np have "tpid c \<noteq> p" by auto
    with link_kids_direct[OF d ks, of p "Children p"] True show ?thesis by simp
  next
    case False
    with "1.prems"(1) have in_kids: "q \<in> set (concat (map subtrees ks))" by simp
    then obtain k where "k \<in> set ks" "q \<in> set (subtrees k)" by auto
    with subtrees_pids cq have "tpid c \<in> set (concat (map pids ks))" by fastforce
    with np have "tpid c \<noteq> p" by auto
    with "1.IH"[OF in_kids d "1.prems"(3)] show ?thesis by simp
  qed
next
  case (2 par pv)
  then show ?case by simp
next
  case (3 par pv k ks)
  let ?nx = "case ks of [] \<Rightarrow> Children par | k' # _ \<Rightarrow> Sibling (tpid k')"
  from "3.prems"(2) have dk: "distinct (pids k)" and dks: "distinct (concat (map pids ks))"
    and disj: "set (pids k) \<inter> set (concat (map pids ks)) = {}" by simp_all
  have cq: "tpid c \<in> set (pids q)" using "3.prems"(3) tpid_in_pids[of c] by (cases q) auto
  show ?case
  proof (cases "q \<in> set (subtrees k)")
    case True
    from "3.IH"(1)[OF True dk "3.prems"(3)] obtain ts where
      "map_of (link_task par pv ?nx k) (tpid c) = Some ts"
      "placed (tpid q) (nxt (tpid q) rest) c ts" by blast
    then show ?thesis by (auto simp: map_add_def)
  next
    case False
    with "3.prems"(1) have in_ks: "q \<in> set (concat (map subtrees ks))" by simp
    then obtain k' where "k' \<in> set ks" "q \<in> set (subtrees k')" by auto
    with subtrees_pids cq have "tpid c \<in> set (concat (map pids ks))" by fastforce
    with disj have "tpid c \<notin> set (pids k)" by auto
    from map_of_skip[OF this] "3.IH"(2)[OF in_ks dks "3.prems"(3)] show ?thesis by simp
  qed
qed

lemma kernel_of_kid:
  assumes "q \<in> set (subtrees t)" "distinct (pids t)" "kids q = pre @ c # rest"
  shows "placed (tpid q) (nxt (tpid q) rest) c (task (kernel_of t) (tpid c))"
proof -
  from link_lookup_placed(1)[OF assms, where nx = "Sibling (tpid t)" and par = "tpid t"
      and pv = "Sibling (tpid t)"]
  show ?thesis by (auto simp: kernel_of_def)
qed

lemma kernel_of_root:
  "placed (tpid t) (Sibling (tpid t)) t (task (kernel_of t) (tpid t))"
  using link_task_head_ex[of "tpid t" "Sibling (tpid t)" "Sibling (tpid t)" t]
  by (auto simp: kernel_of_def)

lemma kids_pids_below:
  "q \<in> set (subtrees t) \<Longrightarrow> set (concat (map pids (kids q))) \<subseteq> set (concat (map pids (kids t)))"
proof (cases "q = t")
  case True
  then show ?thesis by simp
next
  case False
  assume q: "q \<in> set (subtrees t)"
  with False obtain k where k: "k \<in> set (kids t)" "q \<in> set (subtrees k)" by (cases t) auto
  have "set (concat (map pids (kids q))) \<subseteq> set (pids q)" by (cases q) auto
  also have "\<dots> \<subseteq> set (pids k)" using subtrees_pids[OF k(2)] .
  also have "\<dots> \<subseteq> set (concat (map pids (kids t)))" using k(1) by auto
  finally show ?thesis .
qed

lemma kid_not_root:
  assumes "q \<in> set (subtrees t)" "distinct (pids t)" "c \<in> set (kids q)"
  shows "tpid c \<noteq> tpid t"
proof -
  have "tpid c \<in> set (concat (map pids (kids q)))" using assms(3) tpid_in_pids[of c] by auto
  with kids_pids_below[OF assms(1)] have "tpid c \<in> set (concat (map pids (kids t)))" by auto
  moreover from assms(2) have "tpid t \<notin> set (concat (map pids (kids t)))" by (cases t) simp
  ultimately show ?thesis by auto
qed

lemma kid_not_parent:
  assumes "q \<in> set (subtrees t)" "distinct (pids t)" "c \<in> set (kids q)"
  shows "tpid c \<noteq> tpid q"
  using kid_not_root[OF subtrees_self distinct_subtree[OF assms(1,2)] assms(3)] .

lemma init_task_kernel_of: "init_task (kernel_of t) = tpid t"
  by (simp add: kernel_of_def)

lemma pids_subtrees: "pids t = map tpid (subtrees t)"
  by (induction t) (simp add: map_concat comp_def cong: map_cong)

lemma hd_pids: "hd (pids x) = tpid x"
  by (cases x) simp

lemma pids_not_Nil: "pids x \<noteq> []"
  by (cases x) simp

lemma pids_leaf: "kids x = [] \<Longrightarrow> pids x = [tpid x]"
  by (cases x) simp

lemma last_pids: "kids x \<noteq> [] \<Longrightarrow> last (pids x) = last (pids (last (kids x)))"
proof (cases x)
  case (Proc p st u c ks)
  assume "kids x \<noteq> []"
  with Proc have ne: "ks \<noteq> []" by simp
  then obtain pre k where ks: "ks = pre @ [k]" by (metis rev_exhaust)
  have "pids k \<noteq> []" by (cases k) simp
  with Proc ks show ?thesis by (simp add: last_append)
qed

lemma last_kid_split: "kids x \<noteq> [] \<Longrightarrow> kids x = butlast (kids x) @ [last (kids x)]"
  by simp

lemma procs_kernel_of: "get_num_of_processes (kernel_of t) = int (length (pids t)) - 1"
proof -
  have "pids t \<noteq> []" by (rule pids_not_Nil)
  then have "int (length (tl (pids t))) = int (length (pids t)) - 1"
    by (cases "pids t") simp_all
  then show ?thesis by (simp add: get_num_of_processes_length kernel_of_def)
qed

section \<open>The record of a node and the walker's descent\<close>

text \<open>
  Claim C1, as the code has it. For a node with children, the record stores as
  \<^verbatim>\<open>first_child_pid\<close> the pid of the youngest child, the last entry of the list of
  children, while the walker descends to the oldest child, the first entry, and the next
  record it stores is that of the oldest child. The two pids are the same exactly when
  the node has one child.
\<close>

theorem first_child_is_youngest:
  assumes dist: "distinct (pids t)"
    and node: "Proc p st u c ks \<in> set (subtrees t)"
    and ne: "ks \<noteq> []"
  shows "map_sum id first_child_pid (store_node (kernel_of t) p) = Inr (tpid (last ks))
       \<and> dfs_next (kernel_of t) p = Some (Inr (Some (tpid (hd ks))))
       \<and> map_sum id pid (store_node (kernel_of t) (tpid (hd ks))) = Inr (tpid (hd ks))
       \<and> (tpid (last ks) = tpid (hd ks) \<longleftrightarrow> length ks = 1)"
proof -
  let ?k = "kernel_of t"
  from ne obtain k1 rest where ks: "ks = k1 # rest" by (cases ks) auto
  from store_node_of_tree[OF node dist] ks
  have A: "map_sum id first_child_pid (store_node ?k p) = Inr (tpid (last ks))"
    by auto
  from kernel_of_task[OF node dist] ks
  have ch: "children (task ?k p) = \<lparr> next = Sibling (tpid (hd ks)), prev = Sibling (tpid (last ks)) \<rparr>"
    by (simp add: node_struct_def)
  have B: "dfs_next ?k p = Some (Inr (Some (tpid (hd ks))))"
    by (simp add: dfs_next_def list_empty_def list_first_entry_def deref_def ch list_entry_def)
  have "hd ks \<in> set (kids (Proc p st u c ks))" using ne by simp
  from store_node_of_tree[OF kid_subtree[OF node this] dist]
  have C: "map_sum id pid (store_node ?k (tpid (hd ks))) = Inr (tpid (hd ks))"
    by auto
  from distinct_subtree[OF node dist] have "distinct (map tpid ks)"
    using distinct_kid_pids by simp
  from last_eq_hd_distinct[OF this] ne
  have D: "tpid (last ks) = tpid (hd ks) \<longleftrightarrow> length ks = 1"
    by (simp add: last_map hd_map)
  from A B C D show ?thesis by blast
qed

theorem first_child_is_youngest_witness:
  "distinct (pids scenario_tree)
   \<and> map_sum id first_child_pid (store_node (kernel_of scenario_tree) 0) = Inr 2
   \<and> dfs_next (kernel_of scenario_tree) 0 = Some (Inr (Some 1))"
proof -
  have d: "distinct (pids scenario_tree)" by (simp add: scenario_tree_def)
  have n: "Proc 0 0 0 ''swapper''
             [Proc 1 1 0 ''init'' [Proc 3 1 0 ''sh'' []], Proc 2 1 0 ''kthreadd'' []]
           \<in> set (subtrees scenario_tree)"
    by (simp add: scenario_tree_def)
  from first_child_is_youngest[OF d n] d show ?thesis by simp
qed

text \<open>
  Claim C1 as stated fails on the scenario tree: the record of the root has
  \<^verbatim>\<open>first_child_pid = 2\<close>, and the next record is that of pid 1.
\<close>

theorem first_child_not_visited_first:
  "dfs_add (kernel_of scenario_tree) (replicate 4 None) 4
     = Some (Inr ([Some \<lparr> parent_pid = 0, pid = 0, first_child_pid = 2, next_sibling_pid = 0,
                           state = 0, uid = 0, comm = ''swapper'' \<rparr>,
                   Some \<lparr> parent_pid = 0, pid = 1, first_child_pid = 3, next_sibling_pid = 2,
                           state = 1, uid = 0, comm = ''init'' \<rparr>,
                   Some \<lparr> parent_pid = 1, pid = 3, first_child_pid = 0, next_sibling_pid = 0,
                           state = 1, uid = 0, comm = ''sh'' \<rparr>,
                   Some \<lparr> parent_pid = 0, pid = 2, first_child_pid = 0, next_sibling_pid = 0,
                           state = 1, uid = 0, comm = ''kthreadd'' \<rparr>], 4, 4))
   \<and> first_child_pid (the (fst (projr (the (dfs_add (kernel_of scenario_tree)
                                                  (replicate 4 None) 4))) ! 0))
       \<noteq> pid (the (fst (projr (the (dfs_add (kernel_of scenario_tree)
                                            (replicate 4 None) 4))) ! 1))"
  by code_simp

section \<open>Where the walker goes from a node\<close>

text \<open>
  From a node with children the walker goes to the oldest child, from a leaf with a
  younger sibling to that sibling. From a leaf that is a youngest child it climbs.
\<close>

lemma next_of_parent:
  assumes x: "x \<in> set (subtrees t)" and dist: "distinct (pids t)" and ne: "kids x \<noteq> []"
  shows "dfs_next (kernel_of t) (tpid x) = Some (Inr (Some (tpid (hd (kids x)))))"
proof -
  from ne obtain k1 rest where ks: "kids x = k1 # rest" by (cases "kids x") auto
  with kernel_of_task[OF x dist]
  have "next (children (task (kernel_of t) (tpid x))) = Sibling (tpid k1)"
    by (simp add: node_struct_def)
  with ks show ?thesis
    by (simp add: dfs_next_def list_empty_def list_first_entry_def deref_def list_entry_def)
qed

lemma next_of_leaf_with_sibling:
  assumes q: "q \<in> set (subtrees t)" and dist: "distinct (pids t)"
    and pos: "kids q = pre @ x # d # rest" and leaf: "kids x = []"
  shows "dfs_next (kernel_of t) (tpid x) = Some (Inr (Some (tpid d)))"
proof -
  from kernel_of_kid[OF q dist pos] leaf
  have "parent (task (kernel_of t) (tpid x)) = tpid q"
    "next (sibling (task (kernel_of t) (tpid x))) = Sibling (tpid d)"
    "next (children (task (kernel_of t) (tpid x))) = Children (tpid x)"
    by (simp_all add: placed_def nxt_def)
  then show ?thesis
    by (simp add: dfs_next_def list_empty_def list_is_last_def deref_def
                  get_first_list_head_def list_first_entry_def list_entry_def)
qed

lemma next_of_last_leaf:
  assumes q: "q \<in> set (subtrees t)" and dist: "distinct (pids t)"
    and pos: "kids q = pre @ [x]" and leaf: "kids x = []"
  shows "dfs_next (kernel_of t) (tpid x)
           = (case climb (kernel_of t) (Children (parent (task (kernel_of t) (tpid q)))) (tpid q) of
                None \<Rightarrow> None
              | Some cur' \<Rightarrow>
                 (case list_first_entry (kernel_of t) (Sibling cur') of
                    Inl e \<Rightarrow> Some (Inl e)
                  | Inr c \<Rightarrow> if c = init_task (kernel_of t) then Some (Inr None)
                            else Some (Inr (Some c))))"
proof -
  from kernel_of_kid[OF q dist pos] leaf
  have "parent (task (kernel_of t) (tpid x)) = tpid q"
    "real_parent (task (kernel_of t) (tpid x)) = tpid q"
    "next (sibling (task (kernel_of t) (tpid x))) = Children (tpid q)"
    "next (children (task (kernel_of t) (tpid x))) = Children (tpid x)"
    by (simp_all add: placed_def nxt_def)
  then show ?thesis
    by (simp add: dfs_next_def list_empty_def list_is_last_def deref_def
                  get_first_list_head_def)
qed

lemma first_entry_after:
  assumes q: "q \<in> set (subtrees t)" and dist: "distinct (pids t)"
    and pos: "kids q = pre @ c # d # rest"
  shows "list_first_entry (kernel_of t) (Sibling (tpid c)) = Inr (tpid d)"
  using kernel_of_kid[OF q dist pos]
  by (simp add: list_first_entry_def deref_def list_entry_def placed_def nxt_def)

lemma first_entry_root:
  "list_first_entry (kernel_of t) (Sibling (tpid t)) = Inr (tpid t)"
  using kernel_of_root[of t]
  by (simp add: list_first_entry_def deref_def list_entry_def placed_def)

lemma climb_root:
  "climb (kernel_of t) (Children (parent (task (kernel_of t) (tpid t)))) (tpid t) = Some (tpid t)"
  using kernel_of_root[of t]
  by (subst climb.simps) (simp add: placed_def list_is_last_def deref_def init_task_kernel_of)

lemma climb_with_sibling:
  assumes g: "g \<in> set (subtrees t)" and dist: "distinct (pids t)"
    and pos: "kids g = pre @ q # d # rest"
  shows "climb (kernel_of t) (Children (parent (task (kernel_of t) (tpid q)))) (tpid q)
           = Some (tpid q)"
  using kernel_of_kid[OF g dist pos]
  by (subst climb.simps) (simp add: placed_def nxt_def list_is_last_def deref_def)

lemma sibling_next_not_own_head:
  assumes g: "g \<in> set (subtrees t)" and dist: "distinct (pids t)"
  shows "next (sibling (task (kernel_of t) (tpid g))) \<noteq> Children (tpid g)"
proof (cases "g = t")
  case True
  with kernel_of_root[of t] show ?thesis by (simp add: placed_def)
next
  case False
  have "\<exists>gg pre rest. gg \<in> set (subtrees t) \<and> kids gg = pre @ g # rest"
    using g False
  proof (induction t)
    case (Proc p st u c ks)
    from Proc.prems obtain k where k: "k \<in> set ks" "g \<in> set (subtrees k)" by auto
    show ?case
    proof (cases "g = k")
      case True
      from k(1) obtain pre rest where "ks = pre @ k # rest" by (meson split_list)
      with True show ?thesis by (intro exI[of _ "Proc p st u c ks"]) auto
    next
      case False
      from Proc.IH[OF k(1) k(2) False] obtain gg pre rest where
        "gg \<in> set (subtrees k)" "kids gg = pre @ g # rest" by blast
      with k(1) show ?thesis by (intro exI[of _ gg]) auto
    qed
  qed
  then obtain gg pre rest where gg: "gg \<in> set (subtrees t)" "kids gg = pre @ g # rest" by blast
  from kid_not_parent[OF gg(1) dist] gg(2) have "tpid g \<noteq> tpid gg" by simp
  with kernel_of_kid[OF gg(1) dist gg(2)] show ?thesis
    by (auto simp: placed_def nxt_def split: list.splits)
qed

lemma climb_last_child:
  assumes g: "g \<in> set (subtrees t)" and dist: "distinct (pids t)"
    and pos: "kids g = pre @ [q]"
  shows "climb (kernel_of t) (Children (parent (task (kernel_of t) (tpid q)))) (tpid q)
           = Some (tpid g)"
proof -
  from kernel_of_kid[OF g dist pos]
  have f: "parent (task (kernel_of t) (tpid q)) = tpid g"
    "real_parent (task (kernel_of t) (tpid q)) = tpid g"
    "next (sibling (task (kernel_of t) (tpid q))) = Children (tpid g)"
    by (simp_all add: placed_def nxt_def)
  from kid_not_root[OF g dist] pos have nr: "tpid q \<noteq> tpid t" by simp
  have "climb (kernel_of t) (Children (tpid g)) (tpid g) = Some (tpid g)"
    using sibling_next_not_own_head[OF g dist]
    by (subst climb.simps) (simp add: list_is_last_def deref_def)
  then show ?thesis
    using f nr
    by (subst climb.simps) (simp add: list_is_last_def deref_def init_task_kernel_of)
qed

section \<open>The walk on trees whose climbs stay in the tree\<close>

lemma rdepth_kids_last: "ks \<noteq> [] \<Longrightarrow> rdepth_kids ks = Suc (rdepth (last ks))"
proof (induction ks)
  case Nil
  then show ?case by simp
next
  case (Cons k ks)
  then show ?case by (cases ks) auto
qed

lemma rdepth_kids: "rdepth x = (case kids x of [] \<Rightarrow> 0 | _ # _ \<Rightarrow> Suc (rdepth (last (kids x))))"
  by (cases x) (auto simp: rdepth_kids_last split: list.splits)

lemma rdepth_zero: "rdepth x = 0 \<Longrightarrow> kids x = []"
  using rdepth_kids[of x] by (cases "kids x") simp_all

lemma rdepth_Suc: "rdepth x = Suc n \<Longrightarrow> kids x \<noteq> [] \<and> rdepth (last (kids x)) = n"
  using rdepth_kids[of x] by (cases "kids x") simp_all

lemma exit_to_sibling:
  assumes q: "q \<in> set (subtrees t)" and dist: "distinct (pids t)"
    and pos: "kids q = pre @ c # d # rest" and rd: "rdepth c \<le> 2"
  shows "dfs_next (kernel_of t) (last (pids c)) = Some (Inr (Some (tpid d)))"
proof -
  let ?k = "kernel_of t"
  have c: "c \<in> set (subtrees t)" using kid_subtree[OF q] pos by simp
  have dn: "tpid d \<noteq> init_task ?k"
    using kid_not_root[OF q dist, of d] pos by (simp add: init_task_kernel_of)
  note fe = first_entry_after[OF q dist pos]
  from rd consider "rdepth c = 0" | "rdepth c = 1" | "rdepth c = 2" by linarith
  then show ?thesis
  proof cases
    case 1
    then have leaf: "kids c = []" by (rule rdepth_zero)
    with next_of_leaf_with_sibling[OF q dist pos] show ?thesis by (simp add: pids_leaf)
  next
    case 2
    then have ne: "kids c \<noteq> []" and "rdepth (last (kids c)) = 0"
      using rdepth_Suc[of c 0] by simp_all
    then have leaf: "kids (last (kids c)) = []" by (simp add: rdepth_zero)
    have l: "last (pids c) = tpid (last (kids c))"
      using last_pids[OF ne] pids_leaf[OF leaf] by simp
    from next_of_last_leaf[OF c dist last_kid_split[OF ne] leaf]
      climb_with_sibling[OF q dist pos] fe dn l
    show ?thesis by simp
  next
    case 3
    then have ne: "kids c \<noteq> []" and r1: "rdepth (last (kids c)) = Suc 0"
      using rdepth_Suc[of c 1] by simp_all
    let ?p = "last (kids c)"
    from rdepth_Suc[OF r1] have ne2: "kids ?p \<noteq> []" and "rdepth (last (kids ?p)) = 0"
      by simp_all
    then have leaf: "kids (last (kids ?p)) = []" by (simp add: rdepth_zero)
    have p: "?p \<in> set (subtrees t)" using kid_subtree[OF c] ne by simp
    have l: "last (pids c) = tpid (last (kids ?p))"
      using last_pids[OF ne] last_pids[OF ne2] pids_leaf[OF leaf] by simp
    from next_of_last_leaf[OF p dist last_kid_split[OF ne2] leaf]
      climb_last_child[OF c dist last_kid_split[OF ne]] fe dn l
    show ?thesis by simp
  qed
qed

lemma exit_at_root:
  assumes dist: "distinct (pids t)" and rd: "1 \<le> rdepth t" "rdepth t \<le> 2"
  shows "dfs_next (kernel_of t) (last (pids t)) = Some (Inr None)"
proof -
  let ?k = "kernel_of t"
  note fe = first_entry_root[of t]
  note self = subtrees_self[of t]
  from rd consider "rdepth t = 1" | "rdepth t = 2" by linarith
  then show ?thesis
  proof cases
    case 1
    then have ne: "kids t \<noteq> []" and "rdepth (last (kids t)) = 0"
      using rdepth_Suc[of t 0] by simp_all
    then have leaf: "kids (last (kids t)) = []" by (simp add: rdepth_zero)
    have l: "last (pids t) = tpid (last (kids t))"
      using last_pids[OF ne] pids_leaf[OF leaf] by simp
    from next_of_last_leaf[OF self dist last_kid_split[OF ne] leaf] climb_root[of t] fe l
    show ?thesis by (simp add: init_task_kernel_of)
  next
    case 2
    then have ne: "kids t \<noteq> []" and r1: "rdepth (last (kids t)) = Suc 0"
      using rdepth_Suc[of t 1] by simp_all
    let ?p = "last (kids t)"
    from rdepth_Suc[OF r1] have ne2: "kids ?p \<noteq> []" and "rdepth (last (kids ?p)) = 0"
      by simp_all
    then have leaf: "kids (last (kids ?p)) = []" by (simp add: rdepth_zero)
    have p: "?p \<in> set (subtrees t)" using kid_subtree[OF self] ne by simp
    have l: "last (pids t) = tpid (last (kids ?p))"
      using last_pids[OF ne] last_pids[OF ne2] pids_leaf[OF leaf] by simp
    from next_of_last_leaf[OF p dist last_kid_split[OF ne2] leaf]
      climb_last_child[OF self dist last_kid_split[OF ne]] fe l
    show ?thesis by (simp add: init_task_kernel_of)
  qed
qed

lemma follows_append:
  "follows k xs \<Longrightarrow> follows k ys
     \<Longrightarrow> (xs \<noteq> [] \<Longrightarrow> ys \<noteq> [] \<Longrightarrow> dfs_next k (last xs) = Some (Inr (Some (hd ys))))
     \<Longrightarrow> follows k (xs @ ys)"
proof (induction k xs rule: follows.induct)
  case (1 k)
  then show ?case by simp
next
  case (2 k a)
  then show ?case by (cases ys) auto
next
  case (3 k a b r)
  then show ?case by auto
qed

lemma climbs_ok_kid: "climbs_ok_kids ks \<Longrightarrow> k \<in> set ks \<Longrightarrow> climbs_ok k"
proof (induction ks)
  case Nil
  then show ?case by simp
next
  case (Cons a ks)
  then show ?case by (cases ks) auto
qed

lemma follows_kids:
  assumes x: "x \<in> set (subtrees t)" and dist: "distinct (pids t)"
  shows "kids x = pre @ ks \<Longrightarrow> (\<And>c. c \<in> set ks \<Longrightarrow> follows (kernel_of t) (pids c))
           \<Longrightarrow> climbs_ok_kids ks \<Longrightarrow> follows (kernel_of t) (concat (map pids ks))"
proof (induction ks arbitrary: pre)
  case Nil
  then show ?case by simp
next
  case (Cons c ks)
  show ?case
  proof (cases ks)
    case Nil
    with Cons.prems(2)[of c] show ?thesis by simp
  next
    case (Cons d r)
    with Cons.prems(3) have rd: "rdepth c \<le> 2" and ok: "climbs_ok_kids ks" by simp_all
    from Cons.prems(1) have pos': "kids x = (pre @ [c]) @ ks" by simp
    have rest: "follows (kernel_of t) (concat (map pids ks))"
      using Cons.IH[OF pos' _ ok] Cons.prems(2) by simp
    from Cons.prems(1) Cons have pos: "kids x = pre @ c # d # r" by simp
    have hd: "hd (concat (map pids ks)) = tpid d"
      using Cons pids_not_Nil[of d] by (simp add: hd_append hd_pids)
    have "follows (kernel_of t) (pids c @ concat (map pids ks))"
      using Cons.prems(2)[of c] rest exit_to_sibling[OF x dist pos rd] hd
      by (intro follows_append) simp_all
    then show ?thesis by simp
  qed
qed

lemma follows_subtree:
  "x \<in> set (subtrees t) \<Longrightarrow> distinct (pids t) \<Longrightarrow> climbs_ok x
     \<Longrightarrow> follows (kernel_of t) (pids x)"
proof (induction x)
  case (Proc p st u c ks)
  let ?x = "Proc p st u c ks"
  from Proc.prems(3) have ok: "climbs_ok_kids ks" by simp
  have kid: "follows (kernel_of t) (pids k)" if "k \<in> set ks" for k
  proof -
    from that have "k \<in> set (kids ?x)" by simp
    from kid_subtree[OF Proc.prems(1) this] Proc.IH[OF that] Proc.prems(2)
      climbs_ok_kid[OF ok that]
    show ?thesis by simp
  qed
  have rest: "follows (kernel_of t) (concat (map pids ks))"
    using follows_kids[OF Proc.prems(1,2), of "[]" ks] kid ok by simp
  show ?case
  proof (cases ks)
    case Nil
    then show ?thesis by simp
  next
    case (Cons k1 r)
    then have hd: "hd (concat (map pids ks)) = tpid k1"
      using pids_not_Nil[of k1] by (simp add: hd_append hd_pids)
    from next_of_parent[OF Proc.prems(1,2)] Cons
    have "dfs_next (kernel_of t) p = Some (Inr (Some (tpid k1)))" by simp
    with rest hd have "follows (kernel_of t) ([p] @ concat (map pids ks))"
      by (intro follows_append) simp_all
    then show ?thesis by simp
  qed
qed

lemma dfs_loop_follows:
  "follows k (a # xs) \<Longrightarrow> dfs_next k (last (a # xs)) = Some (Inr None)
     \<Longrightarrow> dfs_loop k knr kbuf it a
           = (case stores k knr (a # xs) kbuf it of Inl e \<Rightarrow> Some (Inl e) | Inr r \<Rightarrow> Some (Inr r))"
proof (induction xs arbitrary: a kbuf it)
  case Nil
  then show ?case
    by (subst dfs_loop.simps) (simp split: sum.splits)
next
  case (Cons b xs)
  from Cons.prems have nx: "dfs_next k a = Some (Inr (Some b))" and f: "follows k (b # xs)"
    and l: "dfs_next k (last (b # xs)) = Some (Inr None)" by simp_all
  show ?case
  proof (cases "store_at k knr kbuf it a")
    case (Inl e)
    then show ?thesis by (subst dfs_loop.simps) simp
  next
    case (Inr kbuf')
    with nx Cons.IH[OF f l, of kbuf' "it + 1"] show ?thesis
      by (subst dfs_loop.simps) simp
  qed
qed

lemma store_into_fresh:
  assumes "store_node k x = Inr r"
  shows "store_at k (int n) (map Some (take n ds) @ replicate (n - length ds) None)
           (int (length ds)) x
         = Inr (map Some (take n (ds @ [r])) @ replicate (n - (length ds + 1)) None)"
proof (cases "length ds < n")
  case True
  then obtain m where m: "n - length ds = Suc m" by (metis Suc_diff_Suc)
  then have m': "n - (length ds + 1) = m" by simp
  from True have tk: "take n ds = ds" "take n (ds @ [r]) = ds @ [r]" by simp_all
  have "(map Some ds @ replicate (Suc m) None)[length ds := Some r]
          = map Some ds @ Some r # replicate m None"
    by (simp add: list_update_append)
  with True assms m show ?thesis
    by (simp add: store_at_def tk m')
next
  case False
  then show ?thesis by (simp add: store_at_def)
qed

lemma stores_into_fresh:
  assumes "\<And>x. x \<in> set xs \<Longrightarrow> store_node k x = Inr (rc x)"
  shows "stores k (int n) xs (map Some (take n ds) @ replicate (n - length ds) None)
           (int (length ds))
         = Inr (map Some (take n (ds @ map rc xs)) @ replicate (n - (length ds + length xs)) None,
                int (length ds + length xs))"
  using assms
proof (induction xs arbitrary: ds)
  case Nil
  then show ?case by simp
next
  case (Cons x xs)
  from Cons.prems have x: "store_node k x = Inr (rc x)" by simp
  from Cons.prems have xs: "\<And>y. y \<in> set xs \<Longrightarrow> store_node k y = Inr (rc y)" by simp
  have "int (length ds) + 1 = int (length (ds @ [rc x]))" by simp
  with store_into_fresh[OF x, of n ds] Cons.IH[OF xs, of "ds @ [rc x]"]
  show ?case by (simp add: add.commute)
qed

text \<open>
  On every tree with distinct pids whose climbs are at most two levels, and whose root
  has a child, the walker returns: it has stored the records of the first \<open>n\<close> tasks of
  the pre-order in the buffer of \<open>n\<close> slots, in that order, and counted every task.
\<close>

theorem walk_is_preorder:
  assumes dist: "distinct (pids t)" and ok: "climbs_ok t"
    and rd: "1 \<le> rdepth t" "rdepth t \<le> 2"
  shows "dfs_add (kernel_of t) (replicate n None) (int n)
           = Some (Inr (map Some (take n (map (\<lambda>p. projr (store_node (kernel_of t) p)) (pids t)))
                          @ replicate (n - length (pids t)) None,
                        min (int (length (pids t))) (int n),
                        int (length (pids t))))"
proof -
  let ?k = "kernel_of t"
  let ?rc = "\<lambda>p. projr (store_node ?k p)"
  have st: "store_node ?k x = Inr (?rc x)" if "x \<in> set (pids t)" for x
  proof -
    from that obtain s where "s \<in> set (subtrees t)" "x = tpid s"
      by (auto simp: pids_subtrees)
    with store_node_of_tree[OF _ dist] show ?thesis by fastforce
  qed
  obtain xs where xs: "pids t = tpid t # xs" by (cases t) simp
  from follows_subtree[OF subtrees_self dist ok] xs
  have f: "follows ?k (tpid t # xs)" by simp
  from exit_at_root[OF dist rd] xs
  have l: "dfs_next ?k (last (tpid t # xs)) = Some (Inr None)" by simp
  from stores_into_fresh[of "pids t" ?k ?rc n "[]"] st
  have "stores ?k (int n) (pids t) (replicate n None) 0
          = Inr (map Some (take n (map ?rc (pids t))) @ replicate (n - length (pids t)) None,
                 int (length (pids t)))"
    by simp
  with dfs_loop_follows[OF f l, of "int n" "replicate n None" 0] xs
  have "dfs_loop ?k (int n) (replicate n None) 0 (tpid t)
          = Some (Inr (map Some (take n (map ?rc (pids t))) @ replicate (n - length (pids t)) None,
                       int (length (pids t))))"
    by simp
  then show ?thesis
    by (simp add: dfs_add_def init_task_kernel_of min_def)
qed

text \<open>
  The same for the system call on a tree that does not change, with a caller whose
  buffer takes the records: it returns the number of tasks, writes the smaller of the
  capacity and that number to \<^verbatim>\<open>nr\<close>, and the caller's buffer holds the records of that
  many tasks in pre-order and is unchanged behind them.
\<close>

theorem snapshot_of_static_tree:
  assumes dist: "distinct (pids t)" and ok: "climbs_ok t"
    and rd: "1 \<le> rdepth t" "rdepth t \<le> 2"
    and args: "buf \<noteq> NULL" "nr \<noteq> NULL" "nr_readable u" "nr_writable u" "1 \<le> nr_val u"
    and mem: "kmalloc_ok e (nat (kslots_of (kernel_of t) u) * sizeof_prinfo e)"
    and room: "nat (min (nr_val u) (int (length (pids t)))) \<le> buf_slots u"
  shows "outcome (sys_ptree e (kernel_of t) (kernel_of t) u buf nr) = Returns (int (length (pids t)))
       \<and> nr_val (user (sys_ptree e (kernel_of t) (kernel_of t) u buf nr))
           = min (nr_val u) (int (length (pids t)))
       \<and> (\<forall>i. ubuf (user (sys_ptree e (kernel_of t) (kernel_of t) u buf nr)) i
             = (if i < nat (min (nr_val u) (int (length (pids t))))
                then Some (projr (store_node (kernel_of t) (pids t ! i)))
                else ubuf u i))"
proof -
  let ?k = "kernel_of t"
  let ?N = "length (pids t)"
  let ?ks = "kslots_of ?k u"
  let ?n = "nat ?ks"
  let ?recs = "map (\<lambda>p. projr (store_node ?k p)) (pids t)"
  let ?m = "nat (min (nr_val u) (int ?N))"
  have N: "0 < ?N" using pids_not_Nil[of t] by simp
  have ks: "?ks = min (int ?N + 14) (nr_val u)"
    by (simp add: kslots_of_def MIN_macro_def EXTRA_SLOTS_def procs_kernel_of min_def)
  with args(5) N have ks1: "1 \<le> ?ks" "int ?n = ?ks" by simp_all
  from mem have km: "kmalloc_array e ?ks = Some (replicate ?n None)"
    by (simp add: kmalloc_array_def)
  let ?kbuf = "map Some (take ?n ?recs) @ replicate (?n - ?N) None"
  from walk_is_preorder[OF dist ok rd, of ?n] ks1(2)
  have dfs: "dfs_add ?k (replicate ?n None) ?ks = Some (Inr (?kbuf, min (int ?N) ?ks, int ?N))"
    by simp
  have mn: "min (int ?N) ?ks = min (nr_val u) (int ?N)" using ks by simp
  have mle: "?m \<le> ?n" "?m \<le> ?N" using ks by simp_all
  have cp: "copy_to_user e u ?kbuf ?m
              = (0, u\<lparr>ubuf := (\<lambda>i. if i < ?m then ?kbuf ! i else ubuf u i)\<rparr>)"
    using room by (simp add: copy_to_user_def Let_def min_def)
  have el: "?kbuf ! i = Some (projr (store_node ?k (pids t ! i)))" if "i < ?m" for i
    using that mle by (simp add: nth_append)
  have res: "sys_ptree e ?k ?k u buf nr
               = \<lparr> outcome = Returns (int ?N),
                   user = u\<lparr>ubuf := (\<lambda>i. if i < ?m then ?kbuf ! i else ubuf u i),
                            nr_val := min (nr_val u) (int ?N)\<rparr>,
                   calls = [Read_lock, Read_unlock, Kmalloc_array ?ks, Read_lock, Read_unlock, Kfree] \<rparr>"
    using args km dfs cp
    by (simp add: sys_ptree_def get_user_def put_user_def Let_def kslots_of_def[symmetric] mn
                  s32_def)
  show ?thesis using el by (simp add: res)
qed

text \<open>
  The scenario tree is such a tree; the tree \<open>chain_tree\<close> is not, the first child of its
  root has a younger sibling and \<open>rdepth\<close> 3.
\<close>

lemma scenario_tree_climbs_ok:
  "distinct (pids scenario_tree) \<and> climbs_ok scenario_tree \<and> rdepth scenario_tree = 1"
  by code_simp

lemma chain_tree_not_climbs_ok:
  "distinct (pids chain_tree) \<and> \<not> climbs_ok chain_tree \<and> rdepth (hd (kids chain_tree)) = 3"
  by code_simp

section \<open>A failed copy to the caller\<close>

text \<open>
  Claim C5 at a caller whose buffer takes one record only: \<^verbatim>\<open>copy_to_user\<close> leaves 264
  of the 352 bytes uncopied, and the call returns the count 4 and writes 4 to \<^verbatim>\<open>nr\<close>.
\<close>

theorem failed_copy_returns_count:
  "fst (copy_to_user board (caller 10 1) (replicate 4 None) 4) = 264
   \<and> outcome (sys_ptree board (kernel_of scenario_tree) (kernel_of scenario_tree)
                (caller 10 1) 1 2) = Returns 4
   \<and> nr_val (user (sys_ptree board (kernel_of scenario_tree) (kernel_of scenario_tree)
                      (caller 10 1) 1 2)) = 4
   \<and> ubuf (user (sys_ptree board (kernel_of scenario_tree) (kernel_of scenario_tree)
                      (caller 10 1) 1 2)) 1 = None"
  by code_simp

section \<open>The walk on a chain of only children\<close>

text \<open>
  Claim C9 at the tree \<open>chain_tree\<close>, seven tasks with distinct pids. After task 5 the
  walker climbs from 4 to 3 and stops there, because \<^verbatim>\<open>list\<close> still is the list head of
  3; the node after the \<^verbatim>\<open>sibling\<close> node of 3 is the list head of 1, not a task, and
  the walk leaves the tree there without having visited 2 and 6.
\<close>

theorem climb_leaves_the_tree:
  "distinct (pids chain_tree) \<and> length (pids chain_tree) = 7
   \<and> climb (kernel_of chain_tree) (get_first_list_head (kernel_of chain_tree) 4) 4 = Some 3
   \<and> next (sibling (task (kernel_of chain_tree) 3)) = Children 1
   \<and> dfs_next (kernel_of chain_tree) 5 = Some (Inl WildPointer)
   \<and> dfs_add (kernel_of chain_tree) (replicate 7 None) 7 = Some (Inl WildPointer)"
  by code_simp

text \<open>
  Claim C2 at the same tree with capacity 10: the pre-order has seven tasks, and the
  call does not return the seven records.
\<close>

theorem full_snapshot_faults:
  "pids chain_tree = [0, 1, 3, 4, 5, 2, 6]
   \<and> outcome (sys_ptree board (kernel_of chain_tree) (kernel_of chain_tree) (caller 10 10) 1 2)
       = Faults WildPointer"
  by code_simp

text \<open>
  Claim C3 at the same tree: neither the call with capacity 3 nor the call with capacity
  7 returns records.
\<close>

theorem truncated_snapshot_faults:
  "length (pids chain_tree) = 7
   \<and> outcome (sys_ptree board (kernel_of chain_tree) (kernel_of chain_tree) (caller 3 3) 1 2)
       = Faults WildPointer
   \<and> outcome (sys_ptree board (kernel_of chain_tree) (kernel_of chain_tree) (caller 7 7) 1 2)
       = Faults WildPointer"
  by code_simp

text \<open>
  Claim C4 at the same tree with capacity 1: the call returns no count.
\<close>

theorem count_not_returned:
  "length (pids chain_tree) = 7
   \<and> outcome (sys_ptree board (kernel_of chain_tree) (kernel_of chain_tree) (caller 1 1) 1 2)
       = Faults WildPointer
   \<and> nr_val (user (sys_ptree board (kernel_of chain_tree) (kernel_of chain_tree)
                      (caller 1 1) 1 2)) = 1"
  by code_simp

end
